theory Spec2Isabelle
  imports Complex_Main "HOL-Library.Word" "HOL-Library.Multiset"
begin

section \<open>Common data: bytes, paths, exceptions\<close>

type_synonym byte = "8 word"
type_synonym bytes = "byte list"
type_synonym path = string
type_synonym sha = bytes

text \<open>
  The exceptions the two modules raise or let through. \<open>IOError\<close> and \<open>OSError\<close> are
  kept apart by the place that raises them; both are \<open>EnvironmentError\<close>s.
  \<open>ValueError\<close> stands for any exception outside that family.
\<close>

datatype exc =
    AssertionError
  | IOError
  | OSError
  | ValueError
  | AttributeError
  | UnsupportedOperation
  | BadObject sha
  | AmbiguousObjectName sha

fun is_EnvironmentError :: "exc \<Rightarrow> bool" where
  "is_EnvironmentError IOError = True"
| "is_EnvironmentError OSError = True"
| "is_EnvironmentError _ = False"

section \<open>util.py: allocate_memory\<close>

text \<open>
  A memory block is either an anonymous memory map or the heap-backed
  \<open>_RandomAccessBytesIO\<close> wrapper; both answer \<open>len\<close>.
\<close>

datatype buffer = Mmap bytes | RandomAccessBytesIO bytes




text \<open>
  What the operating system promises about an anonymous mapping of a positive size:
  a region of exactly that many bytes, or a refusal from the \<open>EnvironmentError\<close> family.
\<close>

definition mmap_contract :: "(int \<Rightarrow> exc + buffer) \<Rightarrow> bool" where
  "mmap_contract mmap_anon \<longleftrightarrow>
     (\<forall>n. 0 < n \<longrightarrow>
        (case mmap_anon n of
           Inr m \<Rightarrow> (\<exists>bs. m = Mmap bs \<and> int (length bs) = n)
         | Inl e \<Rightarrow> is_EnvironmentError e))"

text \<open>Two sample platforms: one grants every mapping, one refuses every mapping.\<close>

definition mmap_granting :: "int \<Rightarrow> exc + buffer" where
  "mmap_granting n = (if 0 < n then Inr (Mmap (replicate (nat n) 0)) else Inl ValueError)"


section \<open>The operating system as LockedFD sees it\<close>

type_synonym fd = nat

record regfile =
  content :: bytes
  perms :: nat

record open_file =
  of_path :: path
  of_writable :: bool
  of_pos :: nat

text \<open>
  A flat name space of regular files, the table of open descriptors, the next free
  descriptor number and the platform flag \<open>is_win\<close>.
\<close>

record os_state =
  files :: "path \<rightharpoonup> regfile"
  fds :: "fd \<rightharpoonup> open_file"
  next_fd :: fd
  is_win :: bool

definition mode_600 :: nat where "mode_600 = 384"
definition mode_644 :: nat where "mode_644 = 420"

text \<open>\<open>os.open(p, O_WRONLY | O_CREAT | O_EXCL, mode)\<close>: fails when the file exists.\<close>

definition os_open_excl :: "path \<Rightarrow> nat \<Rightarrow> os_state \<Rightarrow> exc + (fd \<times> os_state)" where
  "os_open_excl p m os =
     (case files os p of
        Some f \<Rightarrow> Inl OSError
      | None \<Rightarrow>
          Inr (next_fd os,
               os\<lparr>files := (files os)(p \<mapsto> \<lparr>content = [], perms = m\<rparr>),
                  fds := (fds os)(next_fd os \<mapsto> \<lparr>of_path = p, of_writable = True, of_pos = 0\<rparr>),
                  next_fd := Suc (next_fd os)\<rparr>))"

text \<open>\<open>os.open(p, O_RDONLY)\<close>: fails when the file does not exist.\<close>

definition os_open_rdonly :: "path \<Rightarrow> os_state \<Rightarrow> exc + (fd \<times> os_state)" where
  "os_open_rdonly p os =
     (case files os p of
        None \<Rightarrow> Inl OSError
      | Some f \<Rightarrow>
          Inr (next_fd os,
               os\<lparr>fds := (fds os)(next_fd os \<mapsto> \<lparr>of_path = p, of_writable = False, of_pos = 0\<rparr>),
                  next_fd := Suc (next_fd os)\<rparr>))"

definition os_close :: "fd \<Rightarrow> os_state \<Rightarrow> exc + os_state" where
  "os_close d os =
     (case fds os d of
        None \<Rightarrow> Inl OSError
      | Some _ \<Rightarrow> Inr (os\<lparr>fds := (fds os)(d := None)\<rparr>))"

text \<open>Writing at a position: the file grows (zero-filled) when the position is past its end.\<close>

definition write_at :: "nat \<Rightarrow> bytes \<Rightarrow> bytes \<Rightarrow> bytes" where
  "write_at pos data old =
     take pos (old @ replicate (pos - length old) 0) @ data @ drop (pos + length data) old"

definition os_write :: "fd \<Rightarrow> bytes \<Rightarrow> os_state \<Rightarrow> exc + os_state" where
  "os_write d data os =
     (case fds os d of
        None \<Rightarrow> Inl OSError
      | Some h \<Rightarrow>
          if \<not> of_writable h then Inl OSError
          else case files os (of_path h) of
                 None \<Rightarrow> Inl OSError
               | Some f \<Rightarrow>
                   Inr (os\<lparr>files := (files os)(of_path h \<mapsto>
                                   f\<lparr>content := write_at (of_pos h) data (content f)\<rparr>),
                           fds := (fds os)(d \<mapsto> h\<lparr>of_pos := of_pos h + length data\<rparr>)\<rparr>))"

text \<open>The caller's writes to the descriptor it was handed, one \<open>os.write\<close> per chunk.\<close>

fun os_write_all :: "fd \<Rightarrow> bytes list \<Rightarrow> os_state \<Rightarrow> exc + os_state" where
  "os_write_all d [] os = Inr os"
| "os_write_all d (c # cs) os =
     (case os_write d c os of Inl e \<Rightarrow> Inl e | Inr os' \<Rightarrow> os_write_all d cs os')"

definition isfile :: "path \<Rightarrow> os_state \<Rightarrow> bool" where
  "isfile p os \<longleftrightarrow> files os p \<noteq> None"

definition os_remove :: "path \<Rightarrow> os_state \<Rightarrow> exc + os_state" where
  "os_remove p os =
     (case files os p of
        None \<Rightarrow> Inl OSError
      | Some _ \<Rightarrow> Inr (os\<lparr>files := (files os)(p := None)\<rparr>))"

text \<open>
  \<open>os.rename\<close>: replaces an existing destination, except on Windows, where it fails
  when the destination exists.
\<close>

definition os_rename :: "path \<Rightarrow> path \<Rightarrow> os_state \<Rightarrow> exc + os_state" where
  "os_rename src dst os =
     (case files os src of
        None \<Rightarrow> Inl OSError
      | Some f \<Rightarrow>
          if is_win os \<and> files os dst \<noteq> None then Inl OSError
          else Inr (os\<lparr>files := ((files os)(src := None))(dst \<mapsto> f)\<rparr>))"

definition os_chmod :: "path \<Rightarrow> nat \<Rightarrow> os_state \<Rightarrow> exc + os_state" where
  "os_chmod p m os =
     (case files os p of
        None \<Rightarrow> Inl OSError
      | Some f \<Rightarrow> Inr (os\<lparr>files := (files os)(p \<mapsto> f\<lparr>perms := m\<rparr>)\<rparr>))"

section \<open>util.py: LockedFD\<close>

record LockedFD =
  lf_filepath :: path
  lf_fd :: "fd option"
  lf_write :: "bool option"

definition LockedFD_init :: "path \<Rightarrow> LockedFD" where
  "LockedFD_init filepath = \<lparr>lf_filepath = filepath, lf_fd = None, lf_write = None\<rparr>"

definition lockfilepath :: "LockedFD \<Rightarrow> path" where
  "lockfilepath self = lf_filepath self @ ''.lock''"

text \<open>What \<open>open\<close> hands back: the descriptor, or the descriptor wrapped in a stream.\<close>

datatype handle = RawFD fd | FDStream fd

fun handle_fd :: "handle \<Rightarrow> fd" where
  "handle_fd (RawFD d) = d"
| "handle_fd (FDStream d) = d"

definition mk_handle :: "bool \<Rightarrow> fd \<Rightarrow> handle" where
  "mk_handle stream d = (if stream then FDStream d else RawFD d)"

text \<open>
  The \<open>try\<close> block of \<open>open\<close>: create the lock file exclusively; in read mode close its
  descriptor at once, in write mode keep it. Any \<open>OSError\<close> in there becomes \<open>IOError\<close>.
\<close>

definition obtain_lock :: "LockedFD \<Rightarrow> bool \<Rightarrow> os_state \<Rightarrow> (exc + unit) \<times> LockedFD \<times> os_state" where
  "obtain_lock self write os =
     (case os_open_excl (lockfilepath self) mode_600 os of
        Inl e \<Rightarrow> (Inl IOError, self, os)
      | Inr (d, os1) \<Rightarrow>
          if \<not> write then
            (case os_close d os1 of
               Inl e \<Rightarrow> (Inl IOError, self, os1)
             | Inr os2 \<Rightarrow> (Inr (), self, os2))
          else (Inr (), self\<lparr>lf_fd := Some d\<rparr>, os1))"

definition LockedFD_open ::
  "LockedFD \<Rightarrow> bool \<Rightarrow> bool \<Rightarrow> os_state \<Rightarrow> (exc + handle) \<times> LockedFD \<times> os_state" where
  "LockedFD_open self write stream os =
     (if lf_write self \<noteq> None then (Inl AssertionError, self, os)
      else
        case obtain_lock (self\<lparr>lf_write := Some write\<rparr>) write os of
          (Inl e, self1, os1) \<Rightarrow> (Inl e, self1, os1)
        | (Inr _, self1, os1) \<Rightarrow>
            (case lf_fd self1 of
               Some d \<Rightarrow> (Inr (mk_handle stream d), self1, os1)
             | None \<Rightarrow>
                 (case os_open_rdonly (lf_filepath self1) os1 of
                    Inr (d, os2) \<Rightarrow> (Inr (mk_handle stream d), self1\<lparr>lf_fd := Some d\<rparr>, os2)
                  | Inl e \<Rightarrow>
                      (case os_remove (lockfilepath self1) os1 of
                         Inl e' \<Rightarrow> (Inl e', self1, os1)
                       | Inr os2 \<Rightarrow> (Inl e, self1, os2)))))"

definition end_writing ::
  "LockedFD \<Rightarrow> bool \<Rightarrow> os_state \<Rightarrow> (exc + unit) \<times> LockedFD \<times> os_state" where
  "end_writing self successful os =
     (if lf_write self = None then (Inl AssertionError, self, os)
      else
        case lf_fd self of
          None \<Rightarrow> (Inr (), self, os)
        | Some d \<Rightarrow>
            (case os_close d os of
               Inl e \<Rightarrow> (Inl e, self, os)
             | Inr os1 \<Rightarrow>
                 let self1 = self\<lparr>lf_fd := None\<rparr>; lockfile = lockfilepath self1 in
                 if lf_write self1 = Some True \<and> successful then
                   (case (if is_win os1 \<and> isfile (lf_filepath self1) os1
                          then os_remove (lf_filepath self1) os1 else Inr os1) of
                      Inl e \<Rightarrow> (Inl e, self1, os1)
                    | Inr os2 \<Rightarrow>
                        (case os_rename lockfile (lf_filepath self1) os2 of
                           Inl e \<Rightarrow> (Inl e, self1, os2)
                         | Inr os3 \<Rightarrow>
                             (case os_chmod (lf_filepath self1) mode_644 os3 of
                                Inl e \<Rightarrow> (Inl e, self1, os3)
                              | Inr os4 \<Rightarrow> (Inr (), self1, os4))))
                 else
                   (case os_remove lockfile os1 of
                      Inl e \<Rightarrow> (Inl e, self1, os1)
                    | Inr os2 \<Rightarrow> (Inr (), self1, os2))))"

definition commit :: "LockedFD \<Rightarrow> os_state \<Rightarrow> (exc + unit) \<times> LockedFD \<times> os_state" where
  "commit self os = end_writing self True os"

definition rollback :: "LockedFD \<Rightarrow> os_state \<Rightarrow> (exc + unit) \<times> LockedFD \<times> os_state" where
  "rollback self os = end_writing self False os"

text \<open>\<open>__del__\<close>: roll back when a descriptor is still held.\<close>

definition LockedFD_del :: "LockedFD \<Rightarrow> os_state \<Rightarrow> (exc + unit) \<times> LockedFD \<times> os_state" where
  "LockedFD_del self os = (if lf_fd self \<noteq> None then rollback self os else (Inr (), self, os))"

text \<open>A sample system: one existing file \<open>obj\<close>, no descriptor open.\<close>

definition os_sample :: "bool \<Rightarrow> os_state" where
  "os_sample win =
     \<lparr>files = [''obj'' \<mapsto> \<lparr>content = [7, 7], perms = mode_644\<rparr>],
      fds = Map.empty, next_fd = 3, is_win = win\<rparr>"

section \<open>db/pack.py: PackedDB\<close>

text \<open>
  \<open>PackEntity\<close>, its pack file and its index live in another module, and the root
  directory lives on disk. What they answer is a parameter of the model, with entity
  handles of any type \<open>'e\<close>:
  \<^item> \<open>stat_mtime\<close>: \<open>os.stat(root_path).st_mtime\<close>, or the exception it raises;
  \<^item> \<open>glob_packs\<close>: the files matching \<open>pack-*.pack\<close>, in the order in which the set
    built from them is iterated;
  \<^item> \<open>open_entity p\<close>: \<open>PackEntity(mman, p)\<close> together with \<open>entity.pack().size()\<close>;
  \<^item> \<open>pack_path e\<close>: \<open>e.pack().path()\<close>;
  \<^item> \<open>sha_to_index e sha\<close>, \<open>partial_sha_to_index e partial_binsha canonical_length\<close> and
    \<open>index_sha e i\<close>: the index queries of entity \<open>e\<close>, each returning or raising.
\<close>

record 'e world =
  stat_mtime :: "exc + real"
  glob_packs :: "path list"
  open_entity :: "path \<Rightarrow> exc + (int \<times> 'e)"
  pack_path :: "'e \<Rightarrow> path"
  sha_to_index :: "'e \<Rightarrow> sha \<Rightarrow> exc + nat option"
  partial_sha_to_index :: "'e \<Rightarrow> sha \<Rightarrow> int \<Rightarrow> exc + nat option"
  index_sha :: "'e \<Rightarrow> nat \<Rightarrow> exc + sha"

text \<open>The calls made to the directory and to the entities' indexes, in order.\<close>

datatype 'e event = Stat | Glob | Open path | Lookup 'e | PartialLookup 'e

text \<open>
  One item of \<open>_entities\<close>: \<open>[hits, entity, sha_to_index]\<close>. The third element is the
  bound method of the entity's index; this module never reads it.
\<close>

record 'e entry =
  hits :: int
  entity :: 'e

text \<open>
  \<open>_entities\<close> is a lazy attribute (\<open>LazyMixin\<close>): \<open>None\<close> until its first read.
  \<open>_st_mtime\<close> is a time stamp that is only ever compared and copied.
\<close>

record 'e PackedDB =
  entities :: "'e entry list option"
  hit_count :: int
  st_mtime :: real

definition PackedDB_init :: "'e PackedDB" where
  "PackedDB_init = \<lparr>entities = None, hit_count = 0, st_mtime = 0\<rparr>"

definition sort_interval :: int where
  "sort_interval = 500"

text \<open>\<open>list.sort(key=lambda l: l[0], reverse=True)\<close>: stable, largest \<open>hits\<close> first.\<close>

definition sort_entities :: "'e entry list \<Rightarrow> 'e entry list" where
  "sort_entities es = sort_key (\<lambda>l. - hits l) es"

text \<open>The loop over the new pack files: open each and append its item.\<close>

fun add_packs ::
  "'e world \<Rightarrow> path list \<Rightarrow> 'e entry list \<Rightarrow> (exc + unit) \<times> 'e entry list \<times> 'e event list" where
  "add_packs w [] es = (Inr (), es, [])"
| "add_packs w (pack_file # rest) es =
     (case open_entity w pack_file of
        Inl e \<Rightarrow> (Inl e, es, [Open pack_file])
      | Inr (sz, ent) \<Rightarrow>
          (case add_packs w rest (es @ [\<lparr>hits = sz, entity = ent\<rparr>]) of
             (r, es', evs) \<Rightarrow> (r, es', Open pack_file # evs)))"

text \<open>The inner loop of the removal: the index of the first item with that path.\<close>

fun find_del_index :: "'e world \<Rightarrow> path \<Rightarrow> 'e entry list \<Rightarrow> nat option" where
  "find_del_index w pack_file [] = None"
| "find_del_index w pack_file (item # rest) =
     (if pack_path w (entity item) = pack_file then Some 0
      else map_option Suc (find_del_index w pack_file rest))"

text \<open>The loop over the removed pack files, with its assertion.\<close>

fun remove_packs ::
  "'e world \<Rightarrow> path list \<Rightarrow> 'e entry list \<Rightarrow> (exc + unit) \<times> 'e entry list" where
  "remove_packs w [] es = (Inr (), es)"
| "remove_packs w (pack_file # rest) es =
     (case find_del_index w pack_file es of
        None \<Rightarrow> (Inl AssertionError, es)
      | Some del_index \<Rightarrow> remove_packs w rest (take del_index es @ drop (Suc del_index) es))"

text \<open>
  \<open>update_cache\<close> from the line that reads \<open>_entities\<close> on, for the list found there:
  the two set differences, the two loops and the final sort.
\<close>

definition reconcile ::
  "'e world \<Rightarrow> path list \<Rightarrow> 'e entry list \<Rightarrow> (exc + bool) \<times> 'e entry list \<times> 'e event list" where
  "reconcile w pack_files es =
     (let our_pack_files = map (\<lambda>item. pack_path w (entity item)) es in
      case add_packs w (filter (\<lambda>p. p \<notin> set our_pack_files) (remdups pack_files)) es of
        (Inl e, es1, evs) \<Rightarrow> (Inl e, es1, evs)
      | (Inr _, es1, evs) \<Rightarrow>
          (case remove_packs w (filter (\<lambda>p. p \<notin> set pack_files) (remdups our_pack_files)) es1 of
             (Inl e, es2) \<Rightarrow> (Inl e, es2, evs)
           | (Inr _, es2) \<Rightarrow> (Inr True, sort_entities es2, evs)))"

text \<open>
  The body of \<open>update_cache\<close>. The read of the attribute \<open>_entities\<close> is the parameter
  \<open>read_entities\<close>: a plain read when the attribute is set, the lazy load otherwise.
\<close>

definition update_cache_body ::
  "('e PackedDB \<Rightarrow> (exc + 'e entry list) \<times> 'e PackedDB \<times> 'e event list)
     \<Rightarrow> 'e world \<Rightarrow> bool \<Rightarrow> 'e PackedDB \<Rightarrow> (exc + bool) \<times> 'e PackedDB \<times> 'e event list" where
  "update_cache_body read_entities w force self =
     (case stat_mtime w of
        Inl e \<Rightarrow> (Inl e, self, [Stat])
      | Inr mtime \<Rightarrow>
          if \<not> force \<and> mtime \<le> st_mtime self then (Inr False, self, [Stat])
          else
            let self1 = self\<lparr>st_mtime := mtime\<rparr>; pack_files = glob_packs w in
            case read_entities self1 of
              (Inl e, self2, evs) \<Rightarrow> (Inl e, self2, [Stat, Glob] @ evs)
            | (Inr es, self2, evs) \<Rightarrow>
                (case reconcile w pack_files es of
                   (r, es', evs') \<Rightarrow>
                     (r, self2\<lparr>entities := Some es'\<rparr>, [Stat, Glob] @ evs @ evs')))"

text \<open>Reading \<open>_entities\<close> when the attribute is set.\<close>

definition read_set_entities ::
  "'e PackedDB \<Rightarrow> (exc + 'e entry list) \<times> 'e PackedDB \<times> 'e event list" where
  "read_set_entities self =
     (case entities self of
        Some es \<Rightarrow> (Inr es, self, [])
      | None \<Rightarrow> (Inl AttributeError, self, []))"

text \<open>\<open>_set_cache_('_entities')\<close>: set the empty list, then \<open>update_cache(force=True)\<close>.\<close>

definition set_cache ::
  "'e world \<Rightarrow> 'e PackedDB \<Rightarrow> (exc + bool) \<times> 'e PackedDB \<times> 'e event list" where
  "set_cache w self = update_cache_body read_set_entities w True (self\<lparr>entities := Some []\<rparr>)"

text \<open>Reading \<open>self._entities\<close>: \<open>LazyMixin.__getattr__\<close> fills the attribute when it is missing.\<close>

definition get_entities ::
  "'e world \<Rightarrow> 'e PackedDB \<Rightarrow> (exc + 'e entry list) \<times> 'e PackedDB \<times> 'e event list" where
  "get_entities w self =
     (case entities self of
        Some es \<Rightarrow> (Inr es, self, [])
      | None \<Rightarrow>
          (case set_cache w self of
             (Inl e, self1, evs) \<Rightarrow> (Inl e, self1, evs)
           | (Inr _, self1, evs) \<Rightarrow>
               (case read_set_entities self1 of
                  (r, self2, evs') \<Rightarrow> (r, self2, evs @ evs'))))"

definition update_cache ::
  "'e world \<Rightarrow> bool \<Rightarrow> 'e PackedDB \<Rightarrow> (exc + bool) \<times> 'e PackedDB \<times> 'e event list" where
  "update_cache w force self = update_cache_body (get_entities w) w force self"

text \<open>\<open>_sort_entities\<close> on the object: read the attribute, sort the list in place.\<close>

definition sort_entities_of ::
  "'e world \<Rightarrow> 'e PackedDB \<Rightarrow> (exc + unit) \<times> 'e PackedDB \<times> 'e event list" where
  "sort_entities_of w self =
     (case get_entities w self of
        (Inl e, self1, evs) \<Rightarrow> (Inl e, self1, evs)
      | (Inr es, self1, evs) \<Rightarrow> (Inr (), self1\<lparr>entities := Some (sort_entities es)\<rparr>, evs))"

text \<open>
  The loop of \<open>_pack_info\<close>: returns the outcome, the list with the hit counted, and the
  index lookups made.
\<close>

fun scan_entities ::
  "'e world \<Rightarrow> sha \<Rightarrow> 'e entry list \<Rightarrow> (exc + ('e \<times> nat)) \<times> 'e entry list \<times> 'e event list" where
  "scan_entities w sha [] = (Inl (BadObject sha), [], [])"
| "scan_entities w sha (item # rest) =
     (case sha_to_index w (entity item) sha of
        Inl e \<Rightarrow> (Inl e, item # rest, [Lookup (entity item)])
      | Inr (Some index) \<Rightarrow>
          (Inr (entity item, index), item\<lparr>hits := hits item + 1\<rparr> # rest, [Lookup (entity item)])
      | Inr None \<Rightarrow>
          (case scan_entities w sha rest of
             (r, rest', evs) \<Rightarrow> (r, item # rest', Lookup (entity item) # evs)))"

definition pack_info ::
  "'e world \<Rightarrow> sha \<Rightarrow> 'e PackedDB \<Rightarrow> (exc + ('e \<times> nat)) \<times> 'e PackedDB \<times> 'e event list" where
  "pack_info w sha self =
     (case (if hit_count self mod sort_interval = 0 then sort_entities_of w self
            else (Inr (), self, [])) of
        (Inl e, self1, evs1) \<Rightarrow> (Inl e, self1, evs1)
      | (Inr _, self1, evs1) \<Rightarrow>
          (case get_entities w self1 of
             (Inl e, self2, evs2) \<Rightarrow> (Inl e, self2, evs1 @ evs2)
           | (Inr es, self2, evs2) \<Rightarrow>
               (case scan_entities w sha es of
                  (Inr found, es', evs3) \<Rightarrow>
                    (Inr found,
                     self2\<lparr>entities := Some es', hit_count := hit_count self2 + 1\<rparr>,
                     evs1 @ evs2 @ evs3)
                | (Inl e, es', evs3) \<Rightarrow>
                    (Inl e, self2\<lparr>entities := Some es'\<rparr>, evs1 @ evs2 @ evs3))))"

text \<open>\<open>has_object\<close>: only \<open>BadObject\<close> is caught.\<close>

definition has_object ::
  "'e world \<Rightarrow> sha \<Rightarrow> 'e PackedDB \<Rightarrow> (exc + bool) \<times> 'e PackedDB \<times> 'e event list" where
  "has_object w sha self =
     (case pack_info w sha self of
        (Inr _, self1, evs) \<Rightarrow> (Inr True, self1, evs)
      | (Inl (BadObject _), self1, evs) \<Rightarrow> (Inr False, self1, evs)
      | (Inl e, self1, evs) \<Rightarrow> (Inl e, self1, evs))"

text \<open>Python's truth value of \<open>candidate\<close>: neither \<open>None\<close> nor the empty byte string.\<close>

fun truthy :: "sha option \<Rightarrow> bool" where
  "truthy None = False"
| "truthy (Some s) = (s \<noteq> [])"

text \<open>The loop of \<open>partial_to_complete_sha\<close>, with the candidate carried along.\<close>

fun partial_scan ::
  "'e world \<Rightarrow> sha \<Rightarrow> int \<Rightarrow> sha option \<Rightarrow> 'e entry list
     \<Rightarrow> (exc + sha option) \<times> 'e event list" where
  "partial_scan w partial_binsha canonical_length candidate [] = (Inr candidate, [])"
| "partial_scan w partial_binsha canonical_length candidate (item # rest) =
     (case partial_sha_to_index w (entity item) partial_binsha canonical_length of
        Inl e \<Rightarrow> (Inl e, [PartialLookup (entity item)])
      | Inr None \<Rightarrow>
          (case partial_scan w partial_binsha canonical_length candidate rest of
             (r, evs) \<Rightarrow> (r, PartialLookup (entity item) # evs))
      | Inr (Some item_index) \<Rightarrow>
          (case index_sha w (entity item) item_index of
             Inl e \<Rightarrow> (Inl e, [PartialLookup (entity item)])
           | Inr sha \<Rightarrow>
               if truthy candidate \<and> candidate \<noteq> Some sha
               then (Inl (AmbiguousObjectName partial_binsha), [PartialLookup (entity item)])
               else
                 (case partial_scan w partial_binsha canonical_length (Some sha) rest of
                    (r, evs) \<Rightarrow> (r, PartialLookup (entity item) # evs))))"

definition partial_to_complete_sha ::
  "'e world \<Rightarrow> sha \<Rightarrow> int \<Rightarrow> 'e PackedDB \<Rightarrow> (exc + sha) \<times> 'e PackedDB \<times> 'e event list" where
  "partial_to_complete_sha w partial_binsha canonical_length self =
     (case get_entities w self of
        (Inl e, self1, evs) \<Rightarrow> (Inl e, self1, evs)
      | (Inr es, self1, evs) \<Rightarrow>
          (case partial_scan w partial_binsha canonical_length None es of
             (Inl e, evs') \<Rightarrow> (Inl e, self1, evs @ evs')
           | (Inr candidate, evs') \<Rightarrow>
               (case candidate of
                  Some sha \<Rightarrow>
                    if sha \<noteq> [] then (Inr sha, self1, evs @ evs')
                    else (Inl (BadObject partial_binsha), self1, evs @ evs')
                | None \<Rightarrow> (Inl (BadObject partial_binsha), self1, evs @ evs'))))"

text \<open>
  What one entity answers to a partial digest in the loop above: the full digest it
  completes to, \<open>None\<close>, or the exception raised by one of its two index queries.
\<close>

definition entity_match :: "'e world \<Rightarrow> sha \<Rightarrow> int \<Rightarrow> 'e \<Rightarrow> exc + sha option" where
  "entity_match w partial_binsha canonical_length e =
     (case partial_sha_to_index w e partial_binsha canonical_length of
        Inl x \<Rightarrow> Inl x
      | Inr None \<Rightarrow> Inr None
      | Inr (Some item_index) \<Rightarrow>
          (case index_sha w e item_index of
             Inl x \<Rightarrow> Inl x
           | Inr sha \<Rightarrow> Inr (Some sha)))"

text \<open>The full digests found for a partial digest, entity by entity.\<close>

definition full_matches :: "'e world \<Rightarrow> sha \<Rightarrow> int \<Rightarrow> 'e entry list \<Rightarrow> sha list" where
  "full_matches w partial_binsha canonical_length es =
     concat (map (\<lambda>item. case entity_match w partial_binsha canonical_length (entity item) of
                              Inr (Some sha) \<Rightarrow> [sha]
                            | _ \<Rightarrow> []) es)"

text \<open>The same query made \<open>n\<close> times in a row, keeping the store between the calls.\<close>

fun repeat_pack_info :: "nat \<Rightarrow> 'e world \<Rightarrow> sha \<Rightarrow> 'e PackedDB \<Rightarrow> 'e PackedDB" where
  "repeat_pack_info 0 w sha self = self"
| "repeat_pack_info (Suc n) w sha self = repeat_pack_info n w sha (fst (snd (pack_info w sha self)))"

subsection \<open>A sample pack directory\<close>

text \<open>
  Three entities. \<open>PackA\<close> holds one object whose digest starts with the hex digits
  \<open>aaaa1\<close>, \<open>PackB\<close> one whose digest starts with \<open>aaaa2\<close>; the index of \<open>PackC\<close> is
  unreadable, and its pack file is gone from the directory.
\<close>

datatype sample_entity = PackA | PackB | PackC

definition sha_1 :: sha where
  "sha_1 = [0xAA, 0xAA, 0x1A] @ replicate 17 0xAA"

definition sha_2 :: sha where
  "sha_2 = [0xAA, 0xAA, 0x2A] @ replicate 17 0xAA"

definition sha_absent :: sha where
  "sha_absent = [0xBB, 0xBB, 0xBB] @ replicate 17 0xBB"

fun sample_index :: "sample_entity \<Rightarrow> sha list" where
  "sample_index PackA = [sha_1]"
| "sample_index PackB = [sha_2]"
| "sample_index PackC = []"

fun sample_path :: "sample_entity \<Rightarrow> path" where
  "sample_path PackA = ''pack-a.pack''"
| "sample_path PackB = ''pack-b.pack''"
| "sample_path PackC = ''pack-c.pack''"

fun first_index :: "('a \<Rightarrow> bool) \<Rightarrow> 'a list \<Rightarrow> nat option" where
  "first_index P [] = None"
| "first_index P (x # xs) = (if P x then Some 0 else map_option Suc (first_index P xs))"

definition hex_digits :: "sha \<Rightarrow> nat list" where
  "hex_digits s = concat (map (\<lambda>b. [unat b div 16, unat b mod 16]) s)"

definition prefix_matches :: "sha \<Rightarrow> int \<Rightarrow> sha \<Rightarrow> bool" where
  "prefix_matches partial_binsha canonical_length s \<longleftrightarrow>
     take (nat canonical_length) (hex_digits s)
       = take (nat canonical_length) (hex_digits partial_binsha)"

fun sample_sha_to_index :: "sample_entity \<Rightarrow> sha \<Rightarrow> exc + nat option" where
  "sample_sha_to_index PackC s = Inl OSError"
| "sample_sha_to_index e s = Inr (first_index (\<lambda>x. x = s) (sample_index e))"

fun sample_partial_sha_to_index :: "sample_entity \<Rightarrow> sha \<Rightarrow> int \<Rightarrow> exc + nat option" where
  "sample_partial_sha_to_index PackC p n = Inl OSError"
| "sample_partial_sha_to_index e p n = Inr (first_index (prefix_matches p n) (sample_index e))"

definition sample_index_sha :: "sample_entity \<Rightarrow> nat \<Rightarrow> exc + sha" where
  "sample_index_sha e i =
     (if i < length (sample_index e) then Inr (sample_index e ! i) else Inl ValueError)"

definition sample_open_entity :: "path \<Rightarrow> exc + (int \<times> sample_entity)" where
  "sample_open_entity p =
     (if p = ''pack-a.pack'' then Inr (100, PackA)
      else if p = ''pack-b.pack'' then Inr (50, PackB)
      else Inl OSError)"

definition sample_world :: "sample_entity world" where
  "sample_world =
     \<lparr>stat_mtime = Inr 7,
      glob_packs = [''pack-a.pack'', ''pack-b.pack''],
      open_entity = sample_open_entity,
      pack_path = sample_path,
      sha_to_index = sample_sha_to_index,
      partial_sha_to_index = sample_partial_sha_to_index,
      index_sha = sample_index_sha\<rparr>"

text \<open>A store over the sample directory holding \<open>PackA\<close> and \<open>PackB\<close>, with the given counters.\<close>

definition sample_db :: "int \<Rightarrow> int \<Rightarrow> int \<Rightarrow> sample_entity PackedDB" where
  "sample_db h1 h2 n =
     \<lparr>entities = Some [\<lparr>hits = h1, entity = PackA\<rparr>, \<lparr>hits = h2, entity = PackB\<rparr>],
      hit_count = n, st_mtime = 7\<rparr>"

section \<open>allocate_memory: results\<close>


lemma mmap_granting_contract: "mmap_contract mmap_granting"
  by (simp add: mmap_contract_def mmap_granting_def)



section \<open>The operating system model: basic facts\<close>

lemma lock_neq [simp]: "p @ ''.lock'' \<noteq> p" "p \<noteq> p @ ''.lock''"
  by auto

lemma write_at_end: "write_at (length old) data old = old @ data"
  by (simp add: write_at_def)

lemma os_write_all_append:
  assumes "fds os d = Some \<lparr>of_path = q, of_writable = True, of_pos = length bs\<rparr>"
      and "files os q = Some \<lparr>content = bs, perms = m\<rparr>"
  shows "\<exists>os'. os_write_all d cs os = Inr os'
           \<and> files os' = (files os)(q \<mapsto> \<lparr>content = bs @ concat cs, perms = m\<rparr>)
           \<and> fds os' = (fds os)(d \<mapsto> \<lparr>of_path = q, of_writable = True,
                                           of_pos = length (bs @ concat cs)\<rparr>)
           \<and> is_win os' = is_win os \<and> next_fd os' = next_fd os"
  using assms
proof (induction cs arbitrary: os bs)
  case Nil
  then show ?case by (simp add: fun_upd_idem)
next
  case (Cons c cs)
  let ?os1 = "os\<lparr>files := (files os)(q \<mapsto> \<lparr>content = bs @ c, perms = m\<rparr>),
                   fds := (fds os)(d \<mapsto> \<lparr>of_path = q, of_writable = True,
                                           of_pos = length (bs @ c)\<rparr>)\<rparr>"
  have w: "os_write d c os = Inr ?os1"
    using Cons.prems by (simp add: os_write_def write_at_end)
  have "\<exists>os'. os_write_all d cs ?os1 = Inr os'
           \<and> files os' = (files ?os1)(q \<mapsto> \<lparr>content = (bs @ c) @ concat cs, perms = m\<rparr>)
           \<and> fds os' = (fds ?os1)(d \<mapsto> \<lparr>of_path = q, of_writable = True,
                                           of_pos = length ((bs @ c) @ concat cs)\<rparr>)
           \<and> is_win os' = is_win ?os1 \<and> next_fd os' = next_fd ?os1"
    by (rule Cons.IH) simp_all
  then obtain os' where "os_write_all d cs ?os1 = Inr os'"
     "files os' = (files ?os1)(q \<mapsto> \<lparr>content = (bs @ c) @ concat cs, perms = m\<rparr>)"
     "fds os' = (fds ?os1)(d \<mapsto> \<lparr>of_path = q, of_writable = True,
                                           of_pos = length ((bs @ c) @ concat cs)\<rparr>)"
     "is_win os' = is_win ?os1" "next_fd os' = next_fd ?os1" by blast
  with w show ?case by (auto simp: fun_eq_iff)
qed

lemma open_write_result:
  assumes "LockedFD_open (LockedFD_init p) True stream os0 = (Inr h, l1, os1)"
  shows "files os0 (p @ ''.lock'') = None
       \<and> l1 = \<lparr>lf_filepath = p, lf_fd = Some (next_fd os0), lf_write = Some True\<rparr>
       \<and> handle_fd h = next_fd os0
       \<and> files os1 = (files os0)(p @ ''.lock'' \<mapsto> \<lparr>content = [], perms = mode_600\<rparr>)
       \<and> fds os1 = (fds os0)(next_fd os0 \<mapsto>
                        \<lparr>of_path = p @ ''.lock'', of_writable = True, of_pos = 0\<rparr>)
       \<and> is_win os1 = is_win os0"
  using assms
  by (auto simp: LockedFD_open_def LockedFD_init_def obtain_lock_def os_open_excl_def
        lockfilepath_def mk_handle_def split: option.splits if_splits)

lemma open_read_result:
  assumes "LockedFD_open (LockedFD_init p) False stream os0 = (Inr h, l1, os1)"
  shows "files os0 (p @ ''.lock'') = None
       \<and> l1 = \<lparr>lf_filepath = p, lf_fd = Some (Suc (next_fd os0)), lf_write = Some False\<rparr>
       \<and> handle_fd h = Suc (next_fd os0)
       \<and> files os1 = (files os0)(p @ ''.lock'' \<mapsto> \<lparr>content = [], perms = mode_600\<rparr>)
       \<and> fds os1 (Suc (next_fd os0)) = Some \<lparr>of_path = p, of_writable = False, of_pos = 0\<rparr>
       \<and> is_win os1 = is_win os0"
  using assms
  by (auto simp: LockedFD_open_def LockedFD_init_def obtain_lock_def os_open_excl_def
        os_close_def os_open_rdonly_def os_remove_def
        lockfilepath_def mk_handle_def split: option.splits if_splits sum.splits)

lemma open_sets_write:
  "LockedFD_open self write stream os = (r, self', os') \<Longrightarrow> lf_write self' \<noteq> None"
  by (auto simp: LockedFD_open_def obtain_lock_def os_open_excl_def
        os_close_def os_open_rdonly_def os_remove_def
        split: option.splits if_splits sum.splits prod.splits)

lemma end_writing_commit_write:
  assumes "lf_write self = Some True" "lf_fd self = Some d" "fds os d = Some x"
      and "files os (lf_filepath self @ ''.lock'') = Some f"
  shows "\<exists>os'. end_writing self True os = (Inr (), self\<lparr>lf_fd := None\<rparr>, os')
           \<and> files os' = ((files os)(lf_filepath self @ ''.lock'' := None))
                             (lf_filepath self \<mapsto> f\<lparr>perms := mode_644\<rparr>)
           \<and> fds os' = (fds os)(d := None)"
  using assms
  by (auto simp: end_writing_def os_close_def os_rename_def os_chmod_def os_remove_def
        isfile_def lockfilepath_def Let_def fun_eq_iff)

lemma end_writing_remove_lock:
  assumes "lf_write self = Some w" "\<not> (w \<and> successful)" "lf_fd self = Some d" "fds os d = Some x"
      and "files os (lf_filepath self @ ''.lock'') = Some f"
  shows "\<exists>os'. end_writing self successful os = (Inr (), self\<lparr>lf_fd := None\<rparr>, os')
           \<and> files os' = (files os)(lf_filepath self @ ''.lock'' := None)
           \<and> fds os' = (fds os)(d := None)"
  using assms
  by (auto simp: end_writing_def os_close_def os_remove_def lockfilepath_def Let_def)

lemma end_writing_closed:
  assumes "lf_write self \<noteq> None" "lf_fd self = None"
  shows "end_writing self successful os = (Inr (), self, os)"
  using assms by (simp add: end_writing_def)

lemma end_writing_closes:
  "end_writing self successful os = (Inr (), self', os')
     \<Longrightarrow> lf_write self' \<noteq> None \<and> lf_fd self' = None"
  by (auto simp: end_writing_def Let_def split: option.splits if_splits sum.splits)

lemma sample_open_write:
  "fst (LockedFD_open (LockedFD_init ''obj'') True False (os_sample win)) = Inr (RawFD 3)"
  by (simp add: LockedFD_open_def LockedFD_init_def obtain_lock_def os_open_excl_def
        lockfilepath_def mk_handle_def os_sample_def)

lemma sample_open_read:
  "fst (LockedFD_open (LockedFD_init ''obj'') False False (os_sample win)) = Inr (RawFD 4)"
  by (simp add: LockedFD_open_def LockedFD_init_def obtain_lock_def os_open_excl_def
        os_close_def os_open_rdonly_def
        lockfilepath_def mk_handle_def os_sample_def)

lemma result_triple: "fst x = a \<Longrightarrow> x = (a, fst (snd x), snd (snd x))"
  by (cases x) auto

section \<open>LockedFD: results\<close>

text \<open>
  C7. \<open>open\<close> may be called once per instance. After any call of \<open>open\<close>, in either
  mode, whether it returned a descriptor or raised, every further call of \<open>open\<close> on
  the instance raises \<open>AssertionError\<close> (the usage error) and changes nothing.
\<close>

theorem open_only_once:
  "LockedFD_open self write stream os = (r, self', os')
     \<Longrightarrow> LockedFD_open self' write' stream' os'' = (Inl AssertionError, self', os'')"
proof -
  assume "LockedFD_open self write stream os = (r, self', os')"
  then have "lf_write self' \<noteq> None" by (rule open_sets_write)
  then show ?thesis by (simp add: LockedFD_open_def)
qed

theorem open_only_once_witness:
  "fst (LockedFD_open (LockedFD_init ''obj'') True False (os_sample False)) = Inr (RawFD 3)
   \<and> fst (LockedFD_open
            (fst (snd (LockedFD_open (LockedFD_init ''obj'') True False (os_sample False))))
            False True (os_sample True)) = Inl AssertionError"
proof -
  have a: "fst (LockedFD_open (LockedFD_init ''obj'') True False (os_sample False)) = Inr (RawFD 3)"
    by (simp add: LockedFD_open_def LockedFD_init_def obtain_lock_def os_open_excl_def
          lockfilepath_def mk_handle_def os_sample_def)
  have b: "LockedFD_open
            (fst (snd (LockedFD_open (LockedFD_init ''obj'') True False (os_sample False))))
            False True (os_sample True)
          = (Inl AssertionError,
             fst (snd (LockedFD_open (LockedFD_init ''obj'') True False (os_sample False))),
             os_sample True)"
    by (rule open_only_once [of "LockedFD_init ''obj''" True False "os_sample False"
          "fst (LockedFD_open (LockedFD_init ''obj'') True False (os_sample False))"
          _ "snd (snd (LockedFD_open (LockedFD_init ''obj'') True False (os_sample False)))"])
       simp
  from a b show ?thesis by simp
qed

text \<open>
  C9. On an instance whose \<open>open\<close> was never called, \<open>commit\<close> and \<open>rollback\<close> raise
  \<open>AssertionError\<close> (the usage error) instead of returning silently, and leave the
  instance and the file system as they were.
\<close>

theorem end_before_open_fails:
  "commit (LockedFD_init p) os = (Inl AssertionError, LockedFD_init p, os)
   \<and> rollback (LockedFD_init p) os = (Inl AssertionError, LockedFD_init p, os)"
  by (simp add: commit_def rollback_def end_writing_def LockedFD_init_def)

lemma write_then_end:
  assumes op: "LockedFD_open (LockedFD_init p) True stream os0 = (Inr h, l1, os1)"
  shows "\<exists>os2. os_write_all (handle_fd h) chunks os1 = Inr os2
           \<and> files os2 = (files os0)(p @ ''.lock'' \<mapsto> \<lparr>content = concat chunks, perms = mode_600\<rparr>)
           \<and> fds os2 (handle_fd h) \<noteq> None"
proof -
  from open_write_result [OF op]
  have f: "files os1 (p @ ''.lock'') = Some \<lparr>content = [], perms = mode_600\<rparr>"
    and d: "fds os1 (handle_fd h) = Some \<lparr>of_path = p @ ''.lock'', of_writable = True, of_pos = length ([]::bytes)\<rparr>"
    and fs: "files os1 = (files os0)(p @ ''.lock'' \<mapsto> \<lparr>content = [], perms = mode_600\<rparr>)"
    by simp_all
  from os_write_all_append [OF d f, of chunks] fs show ?thesis by auto
qed

text \<open>
  C5. A transaction opened in write mode, written to and committed: the writes and the
  commit succeed, the descriptor is closed, the target holds exactly the bytes written
  (the chunks in order) with mode 0644, no lock file remains and no other file changes.
  This holds on both platforms, also on Windows with the target already present (it is
  removed before the rename). A commit in read mode is the same as a rollback: after a
  read-mode open, commit closes the descriptor, deletes the lock file and leaves every
  file as it was before the open.
\<close>

theorem commit_write_transaction:
  "(LockedFD_open (LockedFD_init p) True stream os0 = (Inr h, l1, os1) \<longrightarrow>
      (\<exists>os2 l3 os3.
          os_write_all (handle_fd h) chunks os1 = Inr os2
        \<and> commit l1 os2 = (Inr (), l3, os3)
        \<and> lf_fd l3 = None \<and> fds os3 (handle_fd h) = None
        \<and> files os3 p = Some \<lparr>content = concat chunks, perms = mode_644\<rparr>
        \<and> files os3 (p @ ''.lock'') = None
        \<and> (\<forall>q. q \<noteq> p \<longrightarrow> files os3 q = files os0 q)))
   \<and> (lf_write self = Some False \<longrightarrow> commit self os = rollback self os)
   \<and> (LockedFD_open (LockedFD_init p) False stream os0 = (Inr h', l1', os1') \<longrightarrow>
      (\<exists>l3 os3. commit l1' os1' = (Inr (), l3, os3)
        \<and> lf_fd l3 = None \<and> fds os3 (handle_fd h') = None
        \<and> files os3 = files os0 \<and> files os3 (p @ ''.lock'') = None))"
proof (intro conjI impI)
  assume op: "LockedFD_open (LockedFD_init p) True stream os0 = (Inr h, l1, os1)"
  from write_then_end [OF op, of chunks] obtain os2 where
    w: "os_write_all (handle_fd h) chunks os1 = Inr os2"
    and f2: "files os2 = (files os0)(p @ ''.lock'' \<mapsto> \<lparr>content = concat chunks, perms = mode_600\<rparr>)"
    and d2: "fds os2 (handle_fd h) \<noteq> None" by blast
  from d2 obtain x where d2': "fds os2 (handle_fd h) = Some x" by blast
  from open_write_result [OF op]
  have l1: "lf_write l1 = Some True" "lf_fd l1 = Some (handle_fd h)" "lf_filepath l1 = p"
    and nolock: "files os0 (p @ ''.lock'') = None"
    by simp_all
  from f2 l1 have f2': "files os2 (lf_filepath l1 @ ''.lock'')
      = Some \<lparr>content = concat chunks, perms = mode_600\<rparr>" by simp
  from end_writing_commit_write [OF l1(1) l1(2) d2' f2']
  obtain os3 where c: "end_writing l1 True os2 = (Inr (), l1\<lparr>lf_fd := None\<rparr>, os3)"
    and f3: "files os3 = ((files os2)(lf_filepath l1 @ ''.lock'' := None))
                             (lf_filepath l1 \<mapsto> \<lparr>content = concat chunks, perms = mode_600\<rparr>\<lparr>perms := mode_644\<rparr>)"
    and d3: "fds os3 = (fds os2)(handle_fd h := None)" by blast
  have "files os3 p = Some \<lparr>content = concat chunks, perms = mode_644\<rparr>"
    using f3 l1 by simp
  moreover have "files os3 (p @ ''.lock'') = None"
    using f3 l1 by simp
  moreover have "\<forall>q. q \<noteq> p \<longrightarrow> files os3 q = files os0 q"
    using f3 f2 l1 nolock by simp
  moreover have "fds os3 (handle_fd h) = None" using d3 by simp
  ultimately show "\<exists>os2 l3 os3.
          os_write_all (handle_fd h) chunks os1 = Inr os2
        \<and> commit l1 os2 = (Inr (), l3, os3)
        \<and> lf_fd l3 = None \<and> fds os3 (handle_fd h) = None
        \<and> files os3 p = Some \<lparr>content = concat chunks, perms = mode_644\<rparr>
        \<and> files os3 (p @ ''.lock'') = None
        \<and> (\<forall>q. q \<noteq> p \<longrightarrow> files os3 q = files os0 q)"
    using w c by (simp add: commit_def)
next
  assume "lf_write self = Some False"
  then show "commit self os = rollback self os"
    by (simp add: commit_def rollback_def end_writing_def Let_def
          split: option.split sum.split)
next
  assume op: "LockedFD_open (LockedFD_init p) False stream os0 = (Inr h', l1', os1')"
  from open_read_result [OF op]
  have l1: "lf_write l1' = Some False" "lf_fd l1' = Some (handle_fd h')" "lf_filepath l1' = p"
    and nolock: "files os0 (p @ ''.lock'') = None"
    and f1: "files os1' = (files os0)(p @ ''.lock'' \<mapsto> \<lparr>content = [], perms = mode_600\<rparr>)"
    and d1: "fds os1' (handle_fd h') = Some \<lparr>of_path = p, of_writable = False, of_pos = 0\<rparr>"
    by simp_all
  from f1 l1 have f1': "files os1' (lf_filepath l1' @ ''.lock'')
      = Some \<lparr>content = [], perms = mode_600\<rparr>" by simp
  have ns: "\<not> (False \<and> True)" by simp
  from end_writing_remove_lock [OF l1(1) ns l1(2) d1 f1']
  obtain os3 where c: "end_writing l1' True os1' = (Inr (), l1'\<lparr>lf_fd := None\<rparr>, os3)"
    and f3: "files os3 = (files os1')(lf_filepath l1' @ ''.lock'' := None)"
    and d3: "fds os3 = (fds os1')(handle_fd h' := None)" by blast
  have "files os3 = files os0" using f3 f1 l1 nolock by (auto simp: fun_eq_iff)
  moreover have "files os3 (p @ ''.lock'') = None" using f3 l1 by simp
  moreover have "fds os3 (handle_fd h') = None" using d3 by simp
  ultimately show "\<exists>l3 os3. commit l1' os1' = (Inr (), l3, os3)
        \<and> lf_fd l3 = None \<and> fds os3 (handle_fd h') = None
        \<and> files os3 = files os0 \<and> files os3 (p @ ''.lock'') = None"
    using c by (simp add: commit_def)
qed

theorem commit_write_transaction_witness:
  "fst (LockedFD_open (LockedFD_init ''obj'') True False (os_sample True)) = Inr (RawFD 3)
   \<and> (\<exists>os2 l3 os3.
          os_write_all 3 [[1, 2], [3]]
            (snd (snd (LockedFD_open (LockedFD_init ''obj'') True False (os_sample True)))) = Inr os2
        \<and> commit (fst (snd (LockedFD_open (LockedFD_init ''obj'') True False (os_sample True)))) os2
            = (Inr (), l3, os3)
        \<and> files os3 ''obj'' = Some \<lparr>content = [1, 2, 3], perms = 420\<rparr>
        \<and> files os3 ''obj.lock'' = None)
   \<and> lf_write \<lparr>lf_filepath = ''obj'', lf_fd = Some 4, lf_write = Some False\<rparr> = Some False
   \<and> commit \<lparr>lf_filepath = ''obj'', lf_fd = Some 4, lf_write = Some False\<rparr> (os_sample True)
       = rollback \<lparr>lf_filepath = ''obj'', lf_fd = Some 4, lf_write = Some False\<rparr> (os_sample True)
   \<and> fst (LockedFD_open (LockedFD_init ''obj'') False False (os_sample True)) = Inr (RawFD 4)
   \<and> (\<exists>l3 os3.
          commit (fst (snd (LockedFD_open (LockedFD_init ''obj'') False False (os_sample True))))
            (snd (snd (LockedFD_open (LockedFD_init ''obj'') False False (os_sample True))))
            = (Inr (), l3, os3)
        \<and> files os3 ''obj'' = Some \<lparr>content = [7, 7], perms = 420\<rparr>
        \<and> files os3 ''obj.lock'' = None)"
  using commit_write_transaction [of "''obj''" False "os_sample True" "RawFD 3"
      "fst (snd (LockedFD_open (LockedFD_init ''obj'') True False (os_sample True)))"
      "snd (snd (LockedFD_open (LockedFD_init ''obj'') True False (os_sample True)))"
      "[[1, 2], [3]]"
      "\<lparr>lf_filepath = ''obj'', lf_fd = Some 4, lf_write = Some False\<rparr>" "os_sample True"
      "RawFD 4"
      "fst (snd (LockedFD_open (LockedFD_init ''obj'') False False (os_sample True)))"
      "snd (snd (LockedFD_open (LockedFD_init ''obj'') False False (os_sample True)))"]
    result_triple [OF sample_open_write [of True]] result_triple [OF sample_open_read [of True]]
    sample_open_write [of True] sample_open_read [of True]
  apply (simp only: simp_thms)
  apply (elim conjE exE)
  apply (simp add: mode_644_def)
  apply (auto simp: os_sample_def mode_644_def)
  done

text \<open>
  C6. A transaction opened in write mode, written to and rolled back: every file is as
  before the open (so the target keeps its former content, or stays absent), the bytes
  written are gone with the lock file, and the descriptor is closed. \<open>__del__\<close> on the
  still open instance does exactly what \<open>rollback\<close> does, in write mode and in read mode,
  so no lock file is left. After a \<open>commit\<close> or \<open>rollback\<close> that returned, every later
  \<open>commit\<close>, \<open>rollback\<close> or \<open>__del__\<close> returns without any effect.
\<close>

theorem rollback_write_transaction:
  "(LockedFD_open (LockedFD_init p) True stream os0 = (Inr h, l1, os1) \<longrightarrow>
      (\<exists>os2 l3 os3.
          os_write_all (handle_fd h) chunks os1 = Inr os2
        \<and> rollback l1 os2 = (Inr (), l3, os3)
        \<and> LockedFD_del l1 os2 = (Inr (), l3, os3)
        \<and> lf_fd l3 = None \<and> fds os3 (handle_fd h) = None
        \<and> files os3 = files os0 \<and> files os3 (p @ ''.lock'') = None))
   \<and> (commit self os = (Inr (), self', os') \<or> rollback self os = (Inr (), self', os') \<longrightarrow>
        commit self' os'' = (Inr (), self', os'')
      \<and> rollback self' os'' = (Inr (), self', os'')
      \<and> LockedFD_del self' os'' = (Inr (), self', os''))
   \<and> (LockedFD_open (LockedFD_init p) False stream os0 = (Inr h', l1', os1') \<longrightarrow>
      (\<exists>l3 os3. LockedFD_del l1' os1' = (Inr (), l3, os3)
        \<and> lf_fd l3 = None \<and> fds os3 (handle_fd h') = None
        \<and> files os3 = files os0 \<and> files os3 (p @ ''.lock'') = None))"
proof (intro conjI impI)
  assume op: "LockedFD_open (LockedFD_init p) True stream os0 = (Inr h, l1, os1)"
  from write_then_end [OF op, of chunks] obtain os2 where
    w: "os_write_all (handle_fd h) chunks os1 = Inr os2"
    and f2: "files os2 = (files os0)(p @ ''.lock'' \<mapsto> \<lparr>content = concat chunks, perms = mode_600\<rparr>)"
    and d2: "fds os2 (handle_fd h) \<noteq> None" by blast
  from d2 obtain x where d2': "fds os2 (handle_fd h) = Some x" by blast
  from open_write_result [OF op]
  have l1: "lf_write l1 = Some True" "lf_fd l1 = Some (handle_fd h)" "lf_filepath l1 = p"
    and nolock: "files os0 (p @ ''.lock'') = None"
    by simp_all
  from f2 l1 have f2': "files os2 (lf_filepath l1 @ ''.lock'')
      = Some \<lparr>content = concat chunks, perms = mode_600\<rparr>" by simp
  have ns: "\<not> (True \<and> False)" by simp
  from end_writing_remove_lock [OF l1(1) ns l1(2) d2' f2']
  obtain os3 where c: "end_writing l1 False os2 = (Inr (), l1\<lparr>lf_fd := None\<rparr>, os3)"
    and f3: "files os3 = (files os2)(lf_filepath l1 @ ''.lock'' := None)"
    and d3: "fds os3 = (fds os2)(handle_fd h := None)" by blast
  have "files os3 = files os0" using f3 f2 l1 nolock by (auto simp: fun_eq_iff)
  moreover have "files os3 (p @ ''.lock'') = None" using f3 l1 by simp
  moreover have "fds os3 (handle_fd h) = None" using d3 by simp
  ultimately show "\<exists>os2 l3 os3.
          os_write_all (handle_fd h) chunks os1 = Inr os2
        \<and> rollback l1 os2 = (Inr (), l3, os3)
        \<and> LockedFD_del l1 os2 = (Inr (), l3, os3)
        \<and> lf_fd l3 = None \<and> fds os3 (handle_fd h) = None
        \<and> files os3 = files os0 \<and> files os3 (p @ ''.lock'') = None"
    using w c l1 by (simp add: rollback_def LockedFD_del_def)
next
  assume "commit self os = (Inr (), self', os') \<or> rollback self os = (Inr (), self', os')"
  then have "lf_write self' \<noteq> None \<and> lf_fd self' = None"
    unfolding commit_def rollback_def using end_writing_closes by blast
  then have cl: "lf_write self' \<noteq> None" "lf_fd self' = None" by simp_all
  show "commit self' os'' = (Inr (), self', os'')"
    using cl by (simp add: commit_def end_writing_closed)
  show "rollback self' os'' = (Inr (), self', os'')"
    using cl by (simp add: rollback_def end_writing_closed)
  show "LockedFD_del self' os'' = (Inr (), self', os'')"
    using cl by (simp add: LockedFD_del_def)
next
  assume op: "LockedFD_open (LockedFD_init p) False stream os0 = (Inr h', l1', os1')"
  from open_read_result [OF op]
  have l1: "lf_write l1' = Some False" "lf_fd l1' = Some (handle_fd h')" "lf_filepath l1' = p"
    and nolock: "files os0 (p @ ''.lock'') = None"
    and f1: "files os1' = (files os0)(p @ ''.lock'' \<mapsto> \<lparr>content = [], perms = mode_600\<rparr>)"
    and d1: "fds os1' (handle_fd h') = Some \<lparr>of_path = p, of_writable = False, of_pos = 0\<rparr>"
    by simp_all
  from f1 l1 have f1': "files os1' (lf_filepath l1' @ ''.lock'')
      = Some \<lparr>content = [], perms = mode_600\<rparr>" by simp
  have ns: "\<not> (False \<and> False)" by simp
  from end_writing_remove_lock [OF l1(1) ns l1(2) d1 f1']
  obtain os3 where c: "end_writing l1' False os1' = (Inr (), l1'\<lparr>lf_fd := None\<rparr>, os3)"
    and f3: "files os3 = (files os1')(lf_filepath l1' @ ''.lock'' := None)"
    and d3: "fds os3 = (fds os1')(handle_fd h' := None)" by blast
  have "files os3 = files os0" using f3 f1 l1 nolock by (auto simp: fun_eq_iff)
  moreover have "files os3 (p @ ''.lock'') = None" using f3 l1 by simp
  moreover have "fds os3 (handle_fd h') = None" using d3 by simp
  ultimately show "\<exists>l3 os3. LockedFD_del l1' os1' = (Inr (), l3, os3)
        \<and> lf_fd l3 = None \<and> fds os3 (handle_fd h') = None
        \<and> files os3 = files os0 \<and> files os3 (p @ ''.lock'') = None"
    using c l1 by (simp add: rollback_def LockedFD_del_def)
qed

theorem rollback_write_transaction_witness:
  "fst (LockedFD_open (LockedFD_init ''obj'') True False (os_sample False)) = Inr (RawFD 3)
   \<and> (\<exists>os2 l3 os3.
          os_write_all 3 [[1, 2], [3]]
            (snd (snd (LockedFD_open (LockedFD_init ''obj'') True False (os_sample False)))) = Inr os2
        \<and> rollback (fst (snd (LockedFD_open (LockedFD_init ''obj'') True False (os_sample False)))) os2
            = (Inr (), l3, os3)
        \<and> files os3 ''obj'' = Some \<lparr>content = [7, 7], perms = 420\<rparr>
        \<and> files os3 ''obj.lock'' = None)
   \<and> rollback \<lparr>lf_filepath = ''obj'', lf_fd = None, lf_write = Some True\<rparr> (os_sample False)
       = (Inr (), \<lparr>lf_filepath = ''obj'', lf_fd = None, lf_write = Some True\<rparr>, os_sample False)
   \<and> commit \<lparr>lf_filepath = ''obj'', lf_fd = None, lf_write = Some True\<rparr> (os_sample True)
       = (Inr (), \<lparr>lf_filepath = ''obj'', lf_fd = None, lf_write = Some True\<rparr>, os_sample True)
   \<and> fst (LockedFD_open (LockedFD_init ''obj'') False False (os_sample False)) = Inr (RawFD 4)
   \<and> (\<exists>l3 os3.
          LockedFD_del (fst (snd (LockedFD_open (LockedFD_init ''obj'') False False (os_sample False))))
            (snd (snd (LockedFD_open (LockedFD_init ''obj'') False False (os_sample False))))
            = (Inr (), l3, os3)
        \<and> files os3 ''obj'' = Some \<lparr>content = [7, 7], perms = 420\<rparr>
        \<and> files os3 ''obj.lock'' = None)"
proof -
  let ?s = "\<lparr>lf_filepath = ''obj'', lf_fd = None, lf_write = Some True\<rparr>"
  have first: "rollback ?s (os_sample False) = (Inr (), ?s, os_sample False)"
    by (simp add: rollback_def end_writing_def)
  show ?thesis
    using rollback_write_transaction [of "''obj''" False "os_sample False" "RawFD 3"
      "fst (snd (LockedFD_open (LockedFD_init ''obj'') True False (os_sample False)))"
      "snd (snd (LockedFD_open (LockedFD_init ''obj'') True False (os_sample False)))"
      "[[1, 2], [3]]"
      ?s "os_sample False" ?s "os_sample False" "os_sample True"
      "RawFD 4"
      "fst (snd (LockedFD_open (LockedFD_init ''obj'') False False (os_sample False)))"
      "snd (snd (LockedFD_open (LockedFD_init ''obj'') False False (os_sample False)))"]
    result_triple [OF sample_open_write [of False]] result_triple [OF sample_open_read [of False]]
    sample_open_write [of False] sample_open_read [of False] first
  apply (simp only: simp_thms)
  apply (elim conjE exE)
  apply (simp add: mode_644_def)
  apply (auto simp: os_sample_def mode_644_def)
  done
qed

section \<open>PackedDB: basic facts\<close>

lemma get_entities_set: "entities self = Some es \<Longrightarrow> get_entities w self = (Inr es, self, [])"
  by (simp add: get_entities_def)

lemma scan_entities_miss:
  "\<forall>x\<in>set es. sha_to_index w (entity x) sha = Inr None
     \<Longrightarrow> scan_entities w sha es = (Inl (BadObject sha), es, map (\<lambda>x. Lookup (entity x)) es)"
  by (induction es) auto

lemma scan_entities_hit:
  "\<forall>x\<in>set pre. sha_to_index w (entity x) sha = Inr None
     \<Longrightarrow> sha_to_index w (entity item) sha = Inr (Some i)
     \<Longrightarrow> scan_entities w sha (pre @ item # post)
           = (Inr (entity item, i), pre @ item\<lparr>hits := hits item + 1\<rparr> # post,
              map (\<lambda>x. Lookup (entity x)) (pre @ [item]))"
  by (induction pre) auto

lemma scan_entities_raise:
  "\<forall>x\<in>set pre. sha_to_index w (entity x) sha = Inr None
     \<Longrightarrow> sha_to_index w (entity item) sha = Inl e
     \<Longrightarrow> scan_entities w sha (pre @ item # post)
           = (Inl e, pre @ item # post, map (\<lambda>x. Lookup (entity x)) (pre @ [item]))"
  by (induction pre) auto

lemma pack_info_set:
  "entities self = Some es \<Longrightarrow>
   pack_info w sha self =
     (case scan_entities w sha (if hit_count self mod sort_interval = 0 then sort_entities es else es) of
        (Inr found, es', evs) \<Rightarrow>
           (Inr found, self\<lparr>entities := Some es', hit_count := hit_count self + 1\<rparr>, evs)
      | (Inl e, es', evs) \<Rightarrow> (Inl e, self\<lparr>entities := Some es'\<rparr>, evs))"
  by (simp add: pack_info_def sort_entities_of_def get_entities_def
        split: prod.split sum.split)

lemma pack_info_read:
  assumes "get_entities w self = (Inr es, self1, evs0)"
  shows "pack_info w sha self =
     (case scan_entities w sha (if hit_count self mod sort_interval = 0 then sort_entities es else es) of
        (Inr found, es', evs) \<Rightarrow>
           (Inr found, self1\<lparr>entities := Some es', hit_count := hit_count self1 + 1\<rparr>, evs0 @ evs)
      | (Inl e, es', evs) \<Rightarrow> (Inl e, self1\<lparr>entities := Some es'\<rparr>, evs0 @ evs))"
proof (cases "hit_count self mod sort_interval = 0")
  case True
  have "get_entities w (self1\<lparr>entities := Some (sort_entities es)\<rparr>)
          = (Inr (sort_entities es), self1\<lparr>entities := Some (sort_entities es)\<rparr>, [])"
    by (simp add: get_entities_set)
  with True assms show ?thesis
    by (simp add: pack_info_def sort_entities_of_def split: prod.split sum.split)
next
  case False
  with assms show ?thesis
    by (simp add: pack_info_def split: prod.split sum.split)
qed

lemma get_entities_hit_count:
  "get_entities w self = (r, self1, evs) \<Longrightarrow> hit_count self1 = hit_count self"
  by (auto simp: get_entities_def set_cache_def update_cache_body_def read_set_entities_def
        Let_def split: option.splits sum.splits prod.splits if_splits)

lemma partial_to_complete_sha_read:
  assumes "get_entities w self = (Inr es, self1, evs0)"
  shows "partial_to_complete_sha w pb n self =
     (case partial_scan w pb n None es of
        (Inl e, evs) \<Rightarrow> (Inl e, self1, evs0 @ evs)
      | (Inr candidate, evs) \<Rightarrow>
          (case candidate of
             Some sha \<Rightarrow>
               if sha \<noteq> [] then (Inr sha, self1, evs0 @ evs)
               else (Inl (BadObject pb), self1, evs0 @ evs)
           | None \<Rightarrow> (Inl (BadObject pb), self1, evs0 @ evs)))"
  using assms by (simp add: partial_to_complete_sha_def)

lemma shas_distinct [simp]:
  "sha_1 \<noteq> sha_2" "sha_2 \<noteq> sha_1" "sha_1 \<noteq> sha_absent" "sha_2 \<noteq> sha_absent"
  "sha_absent \<noteq> sha_1" "sha_absent \<noteq> sha_2"
  by (simp_all add: sha_1_def sha_2_def sha_absent_def)

lemma sample_world_simps [simp]:
  "stat_mtime sample_world = Inr 7"
  "glob_packs sample_world = [''pack-a.pack'', ''pack-b.pack'']"
  "open_entity sample_world = sample_open_entity"
  "pack_path sample_world = sample_path"
  "sha_to_index sample_world = sample_sha_to_index"
  "partial_sha_to_index sample_world = sample_partial_sha_to_index"
  "index_sha sample_world = sample_index_sha"
  by (simp_all add: sample_world_def)

section \<open>PackedDB: update_cache\<close>

lemma add_packs_result:
  "add_packs w ps es = (Inr u, es1, evs)
     \<Longrightarrow> \<exists>fresh. es1 = es @ fresh
           \<and> list_all2 (\<lambda>p x. open_entity w p = Inr (hits x, entity x)) ps fresh
           \<and> evs = map Open ps"
proof (induction ps arbitrary: es evs)
  case Nil
  then show ?case by simp
next
  case (Cons p ps)
  from Cons.prems obtain sz ent where o: "open_entity w p = Inr (sz, ent)"
    by (cases "open_entity w p") auto
  with Cons.prems obtain evs' where
    r: "add_packs w ps (es @ [\<lparr>hits = sz, entity = ent\<rparr>]) = (Inr u, es1, evs')"
    and evs: "evs = Open p # evs'"
    by (auto split: prod.splits)
  from Cons.IH [OF r] obtain fresh where
    f: "es1 = (es @ [\<lparr>hits = sz, entity = ent\<rparr>]) @ fresh"
       "list_all2 (\<lambda>p x. open_entity w p = Inr (hits x, entity x)) ps fresh"
       "evs' = map Open ps" by blast
  show ?case
  proof (intro exI conjI)
    show "es1 = es @ (\<lparr>hits = sz, entity = ent\<rparr> # fresh)" using f(1) by simp
    show "list_all2 (\<lambda>p x. open_entity w p = Inr (hits x, entity x)) (p # ps)
            (\<lparr>hits = sz, entity = ent\<rparr> # fresh)" using f(2) o by simp
    show "evs = map Open (p # ps)" using evs f(3) by simp
  qed
qed

lemma find_del_index_step:
  "p \<in> (\<lambda>x. pack_path w (entity x)) ` set k
     \<Longrightarrow> \<exists>i k1. find_del_index w p (k @ f) = Some i
           \<and> take i (k @ f) @ drop (Suc i) (k @ f) = k1 @ f
           \<and> mset k1 \<subseteq># mset k
           \<and> filter (\<lambda>x. pack_path w (entity x) \<noteq> p) k1
               = filter (\<lambda>x. pack_path w (entity x) \<noteq> p) k"
proof (induction k)
  case Nil
  then show ?case by simp
next
  case (Cons x k)
  show ?case
  proof (cases "pack_path w (entity x) = p")
    case True
    have "find_del_index w p ((x # k) @ f) = Some 0
           \<and> take 0 ((x # k) @ f) @ drop (Suc 0) ((x # k) @ f) = k @ f
           \<and> mset k \<subseteq># mset (x # k)
           \<and> filter (\<lambda>x. pack_path w (entity x) \<noteq> p) k
               = filter (\<lambda>x. pack_path w (entity x) \<noteq> p) (x # k)"
      using True by simp
    then show ?thesis by blast
  next
    case False
    with Cons.prems have "p \<in> (\<lambda>x. pack_path w (entity x)) ` set k" by auto
    from Cons.IH [OF this] obtain i k1 where
      i: "find_del_index w p (k @ f) = Some i"
         "take i (k @ f) @ drop (Suc i) (k @ f) = k1 @ f"
         "mset k1 \<subseteq># mset k"
         "filter (\<lambda>x. pack_path w (entity x) \<noteq> p) k1
               = filter (\<lambda>x. pack_path w (entity x) \<noteq> p) k" by blast
    have "find_del_index w p ((x # k) @ f) = Some (Suc i)
           \<and> take (Suc i) ((x # k) @ f) @ drop (Suc (Suc i)) ((x # k) @ f) = (x # k1) @ f
           \<and> mset (x # k1) \<subseteq># mset (x # k)
           \<and> filter (\<lambda>x. pack_path w (entity x) \<noteq> p) (x # k1)
               = filter (\<lambda>x. pack_path w (entity x) \<noteq> p) (x # k)"
      using False i by simp
    then show ?thesis by blast
  qed
qed

lemma remove_packs_result:
  "distinct qs \<Longrightarrow> set qs \<subseteq> (\<lambda>x. pack_path w (entity x)) ` set k
     \<Longrightarrow> \<exists>k'. remove_packs w qs (k @ f) = (Inr (), k' @ f)
           \<and> mset k' \<subseteq># mset k
           \<and> filter (\<lambda>x. pack_path w (entity x) \<notin> set qs) k'
               = filter (\<lambda>x. pack_path w (entity x) \<notin> set qs) k"
proof (induction qs arbitrary: k)
  case Nil
  then show ?case by simp
next
  case (Cons q qs)
  from Cons.prems have "q \<in> (\<lambda>x. pack_path w (entity x)) ` set k" by simp
  from find_del_index_step [OF this, of f] obtain i k1 where
    i: "find_del_index w q (k @ f) = Some i"
       "take i (k @ f) @ drop (Suc i) (k @ f) = k1 @ f"
       "mset k1 \<subseteq># mset k"
       "filter (\<lambda>x. pack_path w (entity x) \<noteq> q) k1
               = filter (\<lambda>x. pack_path w (entity x) \<noteq> q) k" by blast
  have sub: "set qs \<subseteq> (\<lambda>x. pack_path w (entity x)) ` set k1"
  proof
    fix r assume r: "r \<in> set qs"
    with Cons.prems have "r \<noteq> q" by auto
    from r Cons.prems obtain y where y: "y \<in> set k" "pack_path w (entity y) = r" by auto
    with \<open>r \<noteq> q\<close> have "y \<in> set (filter (\<lambda>x. pack_path w (entity x) \<noteq> q) k)" by simp
    with i(4) have "y \<in> set (filter (\<lambda>x. pack_path w (entity x) \<noteq> q) k1)" by simp
    then have "y \<in> set k1" by simp
    with y show "r \<in> (\<lambda>x. pack_path w (entity x)) ` set k1" by auto
  qed
  from Cons.prems have "distinct qs" by simp
  from Cons.IH [OF this sub] obtain k' where
    k': "remove_packs w qs (k1 @ f) = (Inr (), k' @ f)"
        "mset k' \<subseteq># mset k1"
        "filter (\<lambda>x. pack_path w (entity x) \<notin> set qs) k'
               = filter (\<lambda>x. pack_path w (entity x) \<notin> set qs) k1" by blast
  have "filter (\<lambda>x. pack_path w (entity x) \<noteq> q) (filter (\<lambda>x. pack_path w (entity x) \<notin> set qs) k')
      = filter (\<lambda>x. pack_path w (entity x) \<notin> set qs) (filter (\<lambda>x. pack_path w (entity x) \<noteq> q) k1)"
    using k'(3) by (simp add: conj_commute)
  also have "\<dots> = filter (\<lambda>x. pack_path w (entity x) \<notin> set qs) (filter (\<lambda>x. pack_path w (entity x) \<noteq> q) k)"
    using i(4) by simp
  finally have fl: "filter (\<lambda>x. pack_path w (entity x) \<notin> set (q # qs)) k'
               = filter (\<lambda>x. pack_path w (entity x) \<notin> set (q # qs)) k"
    by (simp add: conj_commute)
  have "remove_packs w (q # qs) (k @ f) = (Inr (), k' @ f)"
    using i(1,2) k'(1) by simp
  moreover have "mset k' \<subseteq># mset k" using k'(2) i(3) by (rule subset_mset.order_trans)
  ultimately show ?case using fl by blast
qed

lemma filter_stronger:
  "(\<And>x. P x \<Longrightarrow> Q x) \<Longrightarrow> filter P (filter Q xs) = filter P xs"
  by (induction xs) auto

lemma reconcile_result:
  assumes "reconcile w pack_files es = (Inr b, es', evs)"
  shows "b \<and> (\<exists>kept fresh.
            es' = sort_entities (kept @ fresh)
          \<and> mset kept \<subseteq># mset es
          \<and> filter (\<lambda>x. pack_path w (entity x) \<in> set pack_files) kept
              = filter (\<lambda>x. pack_path w (entity x) \<in> set pack_files) es
          \<and> list_all2 (\<lambda>p x. open_entity w p = Inr (hits x, entity x))
               (filter (\<lambda>p. p \<notin> set (map (\<lambda>x. pack_path w (entity x)) es)) (remdups pack_files))
               fresh
          \<and> evs = map Open
               (filter (\<lambda>p. p \<notin> set (map (\<lambda>x. pack_path w (entity x)) es)) (remdups pack_files)))"
proof -
  let ?ours = "map (\<lambda>x. pack_path w (entity x)) es"
  let ?new = "filter (\<lambda>p. p \<notin> set ?ours) (remdups pack_files)"
  let ?gone = "filter (\<lambda>p. p \<notin> set pack_files) (remdups ?ours)"
  obtain r1 es1 evs1 where a: "add_packs w ?new es = (r1, es1, evs1)"
    by (cases "add_packs w ?new es") auto
  from assms a obtain u where r1: "r1 = Inr u"
    by (cases r1) (auto simp: reconcile_def Let_def)
  from add_packs_result [OF a [unfolded r1]] obtain fresh where
    f: "es1 = es @ fresh"
       "list_all2 (\<lambda>p x. open_entity w p = Inr (hits x, entity x)) ?new fresh"
       "evs1 = map Open ?new" by blast
  have d: "distinct ?gone" by simp
  have s: "set ?gone \<subseteq> (\<lambda>x. pack_path w (entity x)) ` set es" by auto
  from remove_packs_result [OF d s, of fresh] obtain k' where
    k: "remove_packs w ?gone (es @ fresh) = (Inr (), k' @ fresh)"
       "mset k' \<subseteq># mset es"
       "filter (\<lambda>x. pack_path w (entity x) \<notin> set ?gone) k'
               = filter (\<lambda>x. pack_path w (entity x) \<notin> set ?gone) es" by blast
  from assms a r1 f(1) k(1)
  have res: "b" "es' = sort_entities (k' @ fresh)" "evs = evs1"
    by (simp_all add: reconcile_def Let_def)
  have "filter (\<lambda>x. pack_path w (entity x) \<in> set pack_files) k'
        = filter (\<lambda>x. pack_path w (entity x) \<in> set pack_files)
          (filter (\<lambda>x. pack_path w (entity x) \<notin> set ?gone) k')"
    by (rule filter_stronger [symmetric]) simp
  also have "\<dots> = filter (\<lambda>x. pack_path w (entity x) \<in> set pack_files)
          (filter (\<lambda>x. pack_path w (entity x) \<notin> set ?gone) es)"
    by (simp only: k(3))
  also have "\<dots> = filter (\<lambda>x. pack_path w (entity x) \<in> set pack_files) es"
    by (rule filter_stronger) simp
  finally have kept: "filter (\<lambda>x. pack_path w (entity x) \<in> set pack_files) k'
              = filter (\<lambda>x. pack_path w (entity x) \<in> set pack_files) es" .
  from res kept k(2) f(2,3) show ?thesis by blast
qed

lemma update_cache_set:
  assumes "entities self = Some es"
  shows "update_cache w force self =
     (case stat_mtime w of
        Inl e \<Rightarrow> (Inl e, self, [Stat])
      | Inr mtime \<Rightarrow>
          if \<not> force \<and> mtime \<le> st_mtime self then (Inr False, self, [Stat])
          else (case reconcile w (glob_packs w) es of
                  (r, es', evs) \<Rightarrow>
                     (r, self\<lparr>st_mtime := mtime, entities := Some es'\<rparr>, [Stat, Glob] @ evs)))"
  using assms
  by (simp add: update_cache_def update_cache_body_def get_entities_def Let_def
        split: sum.split prod.split)

lemma update_cache_returns_True_iff_listed:
  assumes "entities self = Some es"
      and "update_cache w force self = (Inr b, self', evs)"
  shows "b \<longleftrightarrow> Glob \<in> set evs"
proof -
  from assms(2) obtain mtime where m: "stat_mtime w = Inr mtime"
    by (cases "stat_mtime w") (auto simp: update_cache_set [OF assms(1)])
  show ?thesis
  proof (cases "\<not> force \<and> mtime \<le> st_mtime self")
    case True
    with assms(2) m show ?thesis by (auto simp: update_cache_set [OF assms(1)])
  next
    case False
    obtain r es' evs' where rc: "reconcile w (glob_packs w) es = (r, es', evs')"
      by (cases "reconcile w (glob_packs w) es") auto
    with assms(2) m False have "r = Inr b" "evs = [Stat, Glob] @ evs'"
      by (auto simp: update_cache_set [OF assms(1)])
    with reconcile_result [of w "glob_packs w" es b es' evs'] rc show ?thesis by simp
  qed
qed

lemma first_read_loads_registry:
  "get_entities sample_world PackedDB_init
     = (Inr [\<lparr>hits = 100, entity = PackA\<rparr>, \<lparr>hits = 50, entity = PackB\<rparr>],
        sample_db 100 50 0,
        [Stat, Glob, Open ''pack-a.pack'', Open ''pack-b.pack''])"
  by (simp add: get_entities_def set_cache_def update_cache_body_def read_set_entities_def
        reconcile_def PackedDB_init_def sample_db_def sample_open_entity_def sort_entities_def)

text \<open>
  C1. The early return holds: with \<open>force = False\<close> and the directory's modification
  time not newer than the recorded one, \<open>update_cache\<close> returns \<open>False\<close> after the
  \<open>stat\<close> alone, without listing the directory (third equation). But once it goes on to
  reconcile, it returns \<open>True\<close> whatever it finds: on the sample directory, whose two pack
  files are exactly the two registered ones, a forced refresh and a refresh triggered by a
  newer modification time both leave the registry as it was and return \<open>True\<close>, where the
  docstring promises \<open>False\<close> when there was no change to the pack database.
\<close>

theorem update_cache_returns_True_without_change:
  "update_cache sample_world True (sample_db 100 50 0)
     = (Inr True, sample_db 100 50 0, [Stat, Glob])
   \<and> update_cache sample_world False ((sample_db 100 50 0)\<lparr>st_mtime := 5\<rparr>)
     = (Inr True, sample_db 100 50 0, [Stat, Glob])
   \<and> update_cache sample_world False (sample_db 100 50 0)
     = (Inr False, sample_db 100 50 0, [Stat])"
  by (simp add: update_cache_def update_cache_body_def get_entities_def reconcile_def
        sample_db_def sort_entities_def)

text \<open>
  C10. A call of \<open>update_cache\<close> on a store with a registry \<open>es\<close> that went on to reconcile
  and returned. The new registry is the sorted list of \<open>kept\<close> followed by \<open>fresh\<close>, where
  \<^item> \<open>kept\<close> is taken from the old registry, item by item unchanged (same \<open>hits\<close>, same
    entity), and holds every old item whose pack file is still in the directory, in the
    old order: only items whose file is gone were removed;
  \<^item> \<open>fresh\<close> has exactly one item per file of the directory that no old item had, made
    of the size and the entity that opening that file gave; these files are the only
    ones opened.
  The counter \<open>_hit_count\<close> is untouched.
\<close>

theorem update_cache_keeps_present_entries:
  assumes "entities self = Some es"
      and "update_cache w force self = (Inr True, self', evs)"
  shows "\<exists>kept fresh.
            entities self' = Some (sort_entities (kept @ fresh))
          \<and> mset kept \<subseteq># mset es
          \<and> filter (\<lambda>x. pack_path w (entity x) \<in> set (glob_packs w)) kept
              = filter (\<lambda>x. pack_path w (entity x) \<in> set (glob_packs w)) es
          \<and> list_all2 (\<lambda>p x. open_entity w p = Inr (hits x, entity x))
               (filter (\<lambda>p. p \<notin> set (map (\<lambda>x. pack_path w (entity x)) es))
                  (remdups (glob_packs w)))
               fresh
          \<and> evs = [Stat, Glob] @ map Open
               (filter (\<lambda>p. p \<notin> set (map (\<lambda>x. pack_path w (entity x)) es))
                  (remdups (glob_packs w)))
          \<and> hit_count self' = hit_count self"
proof -
  from assms(2) obtain mtime where m: "stat_mtime w = Inr mtime"
    by (cases "stat_mtime w") (auto simp: update_cache_set [OF assms(1)])
  obtain r es' evs' where rc: "reconcile w (glob_packs w) es = (r, es', evs')"
    by (cases "reconcile w (glob_packs w) es") auto
  from assms(2) m rc have
    res: "r = Inr True" "self' = self\<lparr>st_mtime := mtime, entities := Some es'\<rparr>"
         "evs = [Stat, Glob] @ evs'"
    by (auto simp: update_cache_set [OF assms(1)] split: if_splits)
  from reconcile_result [OF rc [unfolded res(1)]] res(2,3) show ?thesis
    by auto
qed

theorem update_cache_keeps_present_entries_witness:
  "update_cache sample_world False
       \<lparr>entities = Some [\<lparr>hits = 10, entity = PackC\<rparr>, \<lparr>hits = 120, entity = PackA\<rparr>],
        hit_count = 4, st_mtime = 5\<rparr>
     = (Inr True,
        \<lparr>entities = Some [\<lparr>hits = 120, entity = PackA\<rparr>, \<lparr>hits = 50, entity = PackB\<rparr>],
         hit_count = 4, st_mtime = 7\<rparr>,
        [Stat, Glob, Open ''pack-b.pack''])
   \<and> (\<exists>kept fresh.
         [\<lparr>hits = 120, entity = PackA\<rparr>, \<lparr>hits = 50, entity = PackB\<rparr>]
            = sort_entities (kept @ fresh)
       \<and> mset kept \<subseteq># mset [\<lparr>hits = 10, entity = PackC\<rparr>, \<lparr>hits = 120, entity = PackA\<rparr>]
       \<and> filter (\<lambda>x. sample_path (entity x) \<in> {''pack-a.pack'', ''pack-b.pack''}) kept
            = [\<lparr>hits = 120, entity = PackA\<rparr>]
       \<and> list_all2 (\<lambda>p x. sample_open_entity p = Inr (hits x, entity x)) [''pack-b.pack''] fresh)"
proof -
  let ?self = "\<lparr>entities = Some [\<lparr>hits = 10, entity = PackC\<rparr>, \<lparr>hits = 120, entity = PackA\<rparr>],
        hit_count = 4, st_mtime = 5\<rparr>"
  let ?self' = "\<lparr>entities = Some [\<lparr>hits = 120, entity = PackA\<rparr>, \<lparr>hits = 50, entity = PackB\<rparr>],
         hit_count = 4, st_mtime = 7\<rparr>"
  have e: "entities ?self = Some [\<lparr>hits = 10, entity = PackC\<rparr>, \<lparr>hits = 120, entity = PackA\<rparr>]"
    by simp
  have u: "update_cache sample_world False ?self
             = (Inr True, ?self', [Stat, Glob, Open ''pack-b.pack''])"
    by (simp add: update_cache_set [OF e] reconcile_def sample_open_entity_def sort_entities_def)
  from update_cache_keeps_present_entries [OF e u] u show ?thesis
    by simp
qed

section \<open>PackedDB: _pack_info\<close>

lemma pack_info_miss_keeps_store:
  assumes "entities self = Some es" "hit_count self mod sort_interval \<noteq> 0"
      and "\<forall>x\<in>set es. sha_to_index w (entity x) sha = Inr None"
  shows "pack_info w sha self = (Inl (BadObject sha), self, map (\<lambda>x. Lookup (entity x)) es)"
proof -
  have "self\<lparr>entities := Some es\<rparr> = self" using assms(1) by simp
  then show ?thesis
    using assms by (simp add: pack_info_set scan_entities_miss)
qed

lemma repeat_pack_info_misses:
  assumes "entities self = Some es" "hit_count self mod sort_interval \<noteq> 0"
      and "\<forall>x\<in>set es. sha_to_index w (entity x) sha = Inr None"
  shows "repeat_pack_info n w sha self = self"
  using assms by (induction n) (simp_all add: pack_info_miss_keeps_store)

text \<open>
  What one call of \<open>_pack_info\<close> does, for the list \<open>es0\<close> that its loop scans: the
  registry, sorted first when \<open>_hit_count\<close> is a multiple of \<open>_sort_interval\<close>. If the
  first entity that knows the digest is \<open>item\<close>, after the entities \<open>pre\<close> that do not,
  the call returns that entity and its index, adds one to the item's \<open>hits\<close> and to
  \<open>_hit_count\<close>, and has queried \<open>pre\<close> and \<open>item\<close> only. If no entity knows the digest,
  it raises \<open>BadObject\<close> after querying all of them, and both counters keep their values.
  Here \<open>es\<close> is the registry as the call reads it: the list already there, or the list
  that the first read loads from the directory, whose calls \<open>evs0\<close> then come first.
\<close>

lemma pack_info_outcomes:
  assumes "get_entities w self = (Inr es, self1, evs0)"
      and "es0 = (if hit_count self mod sort_interval = 0 then sort_entities es else es)"
  shows "(es0 = pre @ item # post
          \<and> (\<forall>x\<in>set pre. sha_to_index w (entity x) sha = Inr None)
          \<and> sha_to_index w (entity item) sha = Inr (Some i)
        \<longrightarrow> pack_info w sha self
              = (Inr (entity item, i),
                 self1\<lparr>entities := Some (pre @ item\<lparr>hits := hits item + 1\<rparr> # post),
                       hit_count := hit_count self + 1\<rparr>,
                 evs0 @ map (\<lambda>x. Lookup (entity x)) (pre @ [item])))
       \<and> ((\<forall>x\<in>set es0. sha_to_index w (entity x) sha = Inr None)
        \<longrightarrow> pack_info w sha self
              = (Inl (BadObject sha), self1\<lparr>entities := Some es0\<rparr>,
                 evs0 @ map (\<lambda>x. Lookup (entity x)) es0)
          \<and> hit_count self1 = hit_count self)
       \<and> sort_interval = 500"
proof (intro conjI impI)
  note hc = get_entities_hit_count [OF assms(1)]
  {
    assume h: "es0 = pre @ item # post
          \<and> (\<forall>x\<in>set pre. sha_to_index w (entity x) sha = Inr None)
          \<and> sha_to_index w (entity item) sha = Inr (Some i)"
    then have "scan_entities w sha es0
      = (Inr (entity item, i), pre @ item\<lparr>hits := hits item + 1\<rparr> # post,
         map (\<lambda>x. Lookup (entity x)) (pre @ [item]))"
      using scan_entities_hit [of pre w sha item i post] by simp
    then show "pack_info w sha self
              = (Inr (entity item, i),
                 self1\<lparr>entities := Some (pre @ item\<lparr>hits := hits item + 1\<rparr> # post),
                       hit_count := hit_count self + 1\<rparr>,
                 evs0 @ map (\<lambda>x. Lookup (entity x)) (pre @ [item]))"
      using assms(2) hc by (simp add: pack_info_read [OF assms(1)])
  }
  {
    assume "\<forall>x\<in>set es0. sha_to_index w (entity x) sha = Inr None"
    then have "scan_entities w sha es0
      = (Inl (BadObject sha), es0, map (\<lambda>x. Lookup (entity x)) es0)"
      by (rule scan_entities_miss)
    then show "pack_info w sha self
              = (Inl (BadObject sha), self1\<lparr>entities := Some es0\<rparr>,
                 evs0 @ map (\<lambda>x. Lookup (entity x)) es0)"
      using assms(2) by (simp add: pack_info_read [OF assms(1)])
    show "hit_count self1 = hit_count self" by (rule hc)
  }
  show "sort_interval = 500" by (simp add: sort_interval_def)
qed

lemma sort_sample [simp]:
  "sort_entities [\<lparr>hits = 1, entity = PackA\<rparr>, \<lparr>hits = 2, entity = PackB\<rparr>]
     = [\<lparr>hits = 2, entity = PackB\<rparr>, \<lparr>hits = 1, entity = PackA\<rparr>]"
  by (simp add: sort_entities_def)

lemma pack_info_outcomes_sample:
  "pack_info sample_world sha_1 (sample_db 1 2 0)
     = (Inr (PackA, 0),
        \<lparr>entities = Some [\<lparr>hits = 2, entity = PackB\<rparr>, \<lparr>hits = 2, entity = PackA\<rparr>],
         hit_count = 1, st_mtime = 7\<rparr>,
        [Lookup PackB, Lookup PackA])
   \<and> pack_info sample_world sha_absent (sample_db 1 2 0)
     = (Inl (BadObject sha_absent),
        \<lparr>entities = Some [\<lparr>hits = 2, entity = PackB\<rparr>, \<lparr>hits = 1, entity = PackA\<rparr>],
         hit_count = 0, st_mtime = 7\<rparr>,
        [Lookup PackB, Lookup PackA])
   \<and> pack_info sample_world sha_1 (sample_db 1 2 499)
     = (Inr (PackA, 0),
        \<lparr>entities = Some [\<lparr>hits = 2, entity = PackA\<rparr>, \<lparr>hits = 2, entity = PackB\<rparr>],
         hit_count = 500, st_mtime = 7\<rparr>,
        [Lookup PackA])
   \<and> pack_info sample_world sha_2 PackedDB_init
     = (Inr (PackB, 0),
        \<lparr>entities = Some [\<lparr>hits = 100, entity = PackA\<rparr>, \<lparr>hits = 51, entity = PackB\<rparr>],
         hit_count = 1, st_mtime = 7\<rparr>,
        [Stat, Glob, Open ''pack-a.pack'', Open ''pack-b.pack'', Lookup PackA, Lookup PackB])"
proof -
  let ?a = "\<lparr>hits = 1, entity = PackA\<rparr>" and ?b = "\<lparr>hits = 2, entity = PackB\<rparr>"
  let ?A = "\<lparr>hits = 100, entity = PackA\<rparr>" and ?B = "\<lparr>hits = 50, entity = PackB\<rparr>"
  have g0: "get_entities sample_world (sample_db 1 2 0) = (Inr [?a, ?b], sample_db 1 2 0, [])"
    and g499: "get_entities sample_world (sample_db 1 2 499) = (Inr [?a, ?b], sample_db 1 2 499, [])"
    by (simp_all add: get_entities_def sample_db_def)
  have s0: "[?b, ?a] = (if hit_count (sample_db 1 2 0) mod sort_interval = 0
                         then sort_entities [?a, ?b] else [?a, ?b])"
    by (simp add: sample_db_def sort_interval_def)
  have s499: "[?a, ?b] = (if hit_count (sample_db 1 2 499) mod sort_interval = 0
                         then sort_entities [?a, ?b] else [?a, ?b])"
    by (simp add: sample_db_def sort_interval_def)
  have sI: "[?A, ?B] = (if hit_count (PackedDB_init :: sample_entity PackedDB) mod sort_interval = 0
                         then sort_entities [?A, ?B] else [?A, ?B])"
    by (simp add: PackedDB_init_def sort_interval_def sort_entities_def)
  have 1: "pack_info sample_world sha_1 (sample_db 1 2 0)
     = (Inr (PackA, 0),
        \<lparr>entities = Some [\<lparr>hits = 2, entity = PackB\<rparr>, \<lparr>hits = 2, entity = PackA\<rparr>],
         hit_count = 1, st_mtime = 7\<rparr>,
        [Lookup PackB, Lookup PackA])"
    using pack_info_outcomes [OF g0 s0, of "[?b]" ?a "[]" sha_1 0]
    by (simp add: sample_db_def)
  have 2: "pack_info sample_world sha_absent (sample_db 1 2 0)
     = (Inl (BadObject sha_absent),
        \<lparr>entities = Some [\<lparr>hits = 2, entity = PackB\<rparr>, \<lparr>hits = 1, entity = PackA\<rparr>],
         hit_count = 0, st_mtime = 7\<rparr>,
        [Lookup PackB, Lookup PackA])"
    using pack_info_outcomes [OF g0 s0, of "[]" ?b "[?a]" sha_absent 0]
    by (simp add: sample_db_def)
  have 3: "pack_info sample_world sha_1 (sample_db 1 2 499)
     = (Inr (PackA, 0),
        \<lparr>entities = Some [\<lparr>hits = 2, entity = PackA\<rparr>, \<lparr>hits = 2, entity = PackB\<rparr>],
         hit_count = 500, st_mtime = 7\<rparr>,
        [Lookup PackA])"
    using pack_info_outcomes [OF g499 s499, of "[]" ?a "[?b]" sha_1 0]
    by (simp add: sample_db_def)
  have 4: "pack_info sample_world sha_2 PackedDB_init
     = (Inr (PackB, 0),
        \<lparr>entities = Some [\<lparr>hits = 100, entity = PackA\<rparr>, \<lparr>hits = 51, entity = PackB\<rparr>],
         hit_count = 1, st_mtime = 7\<rparr>,
        [Stat, Glob, Open ''pack-a.pack'', Open ''pack-b.pack'', Lookup PackA, Lookup PackB])"
    using pack_info_outcomes [OF first_read_loads_registry sI, of "[?A]" ?B "[]" sha_2 0]
    by (simp add: sample_db_def PackedDB_init_def)
  from 1 2 3 4 show ?thesis by simp
qed

text \<open>
  C2. The comment on \<open>_sort_interval\<close> says that the priority list is sorted every N
  queries, N = 500, and so does the claim. The code does not do that: \<open>_hit_count\<close>, on
  which the sort is decided, moves on a hit only. On the sample store one hit on \<open>PackB\<close>
  leaves the registry out of order (\<open>PackA\<close> with 1 hit before \<open>PackB\<close> with 2) and the
  counter at 1; one thousand queries for an absent digest later the store is the very
  same, the registry still out of order: not one of those queries, the 500th and the
  1000th among them, sorted it.
\<close>

theorem pack_info_misses_never_resort:
  "fst (snd (pack_info sample_world sha_2 (sample_db 1 1 0))) = sample_db 1 2 1
   \<and> repeat_pack_info 1000 sample_world sha_absent (sample_db 1 2 1) = sample_db 1 2 1
   \<and> entities (sample_db 1 2 1) = Some [\<lparr>hits = 1, entity = PackA\<rparr>, \<lparr>hits = 2, entity = PackB\<rparr>]
   \<and> sort_entities [\<lparr>hits = 1, entity = PackA\<rparr>, \<lparr>hits = 2, entity = PackB\<rparr>]
        \<noteq> [\<lparr>hits = 1, entity = PackA\<rparr>, \<lparr>hits = 2, entity = PackB\<rparr>]"
proof -
  have a: "fst (snd (pack_info sample_world sha_2 (sample_db 1 1 0))) = sample_db 1 2 1"
    by (simp add: pack_info_set [of _ "[\<lparr>hits = 1, entity = PackA\<rparr>, \<lparr>hits = 1, entity = PackB\<rparr>]"]
          sample_db_def sort_interval_def sort_entities_def)
  have b: "repeat_pack_info 1000 sample_world sha_absent (sample_db 1 2 1) = sample_db 1 2 1"
    by (rule repeat_pack_info_misses [of _ "[\<lparr>hits = 1, entity = PackA\<rparr>, \<lparr>hits = 2, entity = PackB\<rparr>]"])
       (simp_all add: sample_db_def sort_interval_def)
  show ?thesis using a b by (simp add: sample_db_def)
qed

lemma has_object_eq:
  "has_object w sha self =
     (case pack_info w sha self of
        (Inr f, self1, evs) \<Rightarrow> (Inr True, self1, evs)
      | (Inl e, self1, evs) \<Rightarrow>
          ((case e of BadObject s \<Rightarrow> Inr False | _ \<Rightarrow> Inl e), self1, evs))"
  by (simp add: has_object_def split: prod.split sum.split exc.split)

text \<open>
  C4, as the code has it. An entity whose index does not know the digest (it answers
  \<open>None\<close>) is passed over. An exception raised by the index query of an entity is not
  caught: when the entities before \<open>item\<close> answer \<open>None\<close> and the query of \<open>item\<close> raises
  \<open>e\<close>, \<open>_pack_info\<close> raises \<open>e\<close> at once, the later entities are not queried, and
  \<open>has_object\<close> raises it too unless it is a \<open>BadObject\<close>. When every entity answers
  \<open>None\<close>, \<open>_pack_info\<close> raises \<open>BadObject\<close> and \<open>has_object\<close> returns \<open>False\<close>.
  Here \<open>es\<close> is the registry as the call reads it: the list already there, or the list
  that the first read loads from the directory, whose calls \<open>evs0\<close> then come first.
\<close>

theorem pack_info_raises_entity_failure:
  assumes "get_entities w self = (Inr es, self1, evs0)"
      and "es0 = (if hit_count self mod sort_interval = 0 then sort_entities es else es)"
  shows "(es0 = pre @ item # post
          \<and> (\<forall>x\<in>set pre. sha_to_index w (entity x) sha = Inr None)
          \<and> sha_to_index w (entity item) sha = Inl e
        \<longrightarrow> pack_info w sha self
              = (Inl e, self1\<lparr>entities := Some es0\<rparr>,
                 evs0 @ map (\<lambda>x. Lookup (entity x)) (pre @ [item]))
          \<and> has_object w sha self
              = ((case e of BadObject s \<Rightarrow> Inr False | _ \<Rightarrow> Inl e),
                 self1\<lparr>entities := Some es0\<rparr>,
                 evs0 @ map (\<lambda>x. Lookup (entity x)) (pre @ [item])))
       \<and> ((\<forall>x\<in>set es0. sha_to_index w (entity x) sha = Inr None)
        \<longrightarrow> pack_info w sha self
              = (Inl (BadObject sha), self1\<lparr>entities := Some es0\<rparr>,
                 evs0 @ map (\<lambda>x. Lookup (entity x)) es0)
          \<and> has_object w sha self
              = (Inr False, self1\<lparr>entities := Some es0\<rparr>,
                 evs0 @ map (\<lambda>x. Lookup (entity x)) es0))"
proof -
  have fail: "pack_info w sha self
       = (Inl e, self1\<lparr>entities := Some es0\<rparr>,
          evs0 @ map (\<lambda>x. Lookup (entity x)) (pre @ [item]))"
    if h: "es0 = pre @ item # post
          \<and> (\<forall>x\<in>set pre. sha_to_index w (entity x) sha = Inr None)
          \<and> sha_to_index w (entity item) sha = Inl e"
  proof -
    from h have "scan_entities w sha es0
        = (Inl e, pre @ item # post, map (\<lambda>x. Lookup (entity x)) (pre @ [item]))"
      using scan_entities_raise [of pre w sha item e post] by simp
    with h show ?thesis using assms(2) by (simp add: pack_info_read [OF assms(1)])
  qed
  have miss: "pack_info w sha self
       = (Inl (BadObject sha), self1\<lparr>entities := Some es0\<rparr>,
          evs0 @ map (\<lambda>x. Lookup (entity x)) es0)"
    if h: "\<forall>x\<in>set es0. sha_to_index w (entity x) sha = Inr None"
  proof -
    from h have "scan_entities w sha es0
        = (Inl (BadObject sha), es0, map (\<lambda>x. Lookup (entity x)) es0)"
      by (rule scan_entities_miss)
    then show ?thesis using assms(2) by (simp add: pack_info_read [OF assms(1)])
  qed
  show ?thesis
    using fail miss by (simp add: has_object_eq)
qed

text \<open>
  C4 as stated fails: the index of \<open>PackC\<close> raises \<open>OSError\<close>, the next entity \<open>PackA\<close>
  holds the digest, and yet both \<open>_pack_info\<close> and \<open>has_object\<close> raise \<open>OSError\<close> after
  the one query of \<open>PackC\<close>.
\<close>

theorem entity_failure_swallowed_counterexample:
  "pack_info sample_world sha_1
       \<lparr>entities = Some [\<lparr>hits = 9, entity = PackC\<rparr>, \<lparr>hits = 1, entity = PackA\<rparr>],
        hit_count = 0, st_mtime = 7\<rparr>
     = (Inl OSError,
        \<lparr>entities = Some [\<lparr>hits = 9, entity = PackC\<rparr>, \<lparr>hits = 1, entity = PackA\<rparr>],
         hit_count = 0, st_mtime = 7\<rparr>,
        [Lookup PackC])
   \<and> has_object sample_world sha_1
       \<lparr>entities = Some [\<lparr>hits = 9, entity = PackC\<rparr>, \<lparr>hits = 1, entity = PackA\<rparr>],
        hit_count = 0, st_mtime = 7\<rparr>
     = (Inl OSError,
        \<lparr>entities = Some [\<lparr>hits = 9, entity = PackC\<rparr>, \<lparr>hits = 1, entity = PackA\<rparr>],
         hit_count = 0, st_mtime = 7\<rparr>,
        [Lookup PackC])
   \<and> sha_to_index sample_world PackA sha_1 = Inr (Some 0)"
  by (simp add: has_object_eq
        pack_info_set [of _ "[\<lparr>hits = 9, entity = PackC\<rparr>, \<lparr>hits = 1, entity = PackA\<rparr>]"]
        sort_interval_def sort_entities_def)

theorem pack_info_raises_entity_failure_witness:
  "pack_info sample_world sha_1
       \<lparr>entities = Some [\<lparr>hits = 1, entity = PackB\<rparr>, \<lparr>hits = 1, entity = PackC\<rparr>,
                         \<lparr>hits = 1, entity = PackA\<rparr>],
        hit_count = 3, st_mtime = 7\<rparr>
     = (Inl OSError,
        \<lparr>entities = Some [\<lparr>hits = 1, entity = PackB\<rparr>, \<lparr>hits = 1, entity = PackC\<rparr>,
                         \<lparr>hits = 1, entity = PackA\<rparr>],
         hit_count = 3, st_mtime = 7\<rparr>,
        [Lookup PackB, Lookup PackC])
   \<and> has_object sample_world sha_absent (sample_db 1 2 3)
     = (Inr False, sample_db 1 2 3, [Lookup PackA, Lookup PackB])"
proof -
  let ?a = "\<lparr>hits = 1, entity = PackA\<rparr>" and ?b = "\<lparr>hits = 1, entity = PackB\<rparr>"
  let ?c = "\<lparr>hits = 1, entity = PackC\<rparr>" and ?b2 = "\<lparr>hits = 2, entity = PackB\<rparr>"
  let ?db = "\<lparr>entities = Some [?b, ?c, ?a], hit_count = 3, st_mtime = 7\<rparr>"
  have e1: "get_entities sample_world ?db = (Inr [?b, ?c, ?a], ?db, [])"
    by (simp add: get_entities_def)
  have s1: "[?b, ?c, ?a] = (if hit_count ?db mod sort_interval = 0
                         then sort_entities [?b, ?c, ?a] else [?b, ?c, ?a])"
    by (simp add: sort_interval_def)
  have e2: "get_entities sample_world (sample_db 1 2 3) = (Inr [?a, ?b2], sample_db 1 2 3, [])"
    by (simp add: get_entities_def sample_db_def)
  have s2: "[?a, ?b2] = (if hit_count (sample_db 1 2 3) mod sort_interval = 0
                         then sort_entities [?a, ?b2] else [?a, ?b2])"
    by (simp add: sample_db_def sort_interval_def)
  have 1: "pack_info sample_world sha_1 ?db = (Inl OSError, ?db, [Lookup PackB, Lookup PackC])"
    using pack_info_raises_entity_failure [OF e1 s1, of "[?b]" ?c "[?a]" sha_1 OSError]
    by simp
  have 2: "has_object sample_world sha_absent (sample_db 1 2 3)
     = (Inr False, sample_db 1 2 3, [Lookup PackA, Lookup PackB])"
    using pack_info_raises_entity_failure [OF e2 s2, of "[]" ?a "[?b2]" sha_absent OSError]
    by (simp add: sample_db_def)
  from 1 2 show ?thesis by simp
qed

section \<open>PackedDB: partial_to_complete_sha\<close>

lemma full_matches_Nil [simp]: "full_matches w pb n [] = []"
  by (simp add: full_matches_def)

lemma full_matches_Cons:
  "full_matches w pb n (x # xs) =
     (case entity_match w pb n (entity x) of Inr (Some s) \<Rightarrow> [s] | _ \<Rightarrow> []) @ full_matches w pb n xs"
  by (simp add: full_matches_def)

lemma partial_scan_step:
  "partial_scan w pb n cand (x # xs) =
     (case entity_match w pb n (entity x) of
        Inl e \<Rightarrow> (Inl e, [PartialLookup (entity x)])
      | Inr None \<Rightarrow>
          (case partial_scan w pb n cand xs of (r, evs) \<Rightarrow> (r, PartialLookup (entity x) # evs))
      | Inr (Some s) \<Rightarrow>
          if truthy cand \<and> cand \<noteq> Some s
          then (Inl (AmbiguousObjectName pb), [PartialLookup (entity x)])
          else (case partial_scan w pb n (Some s) xs of
                  (r, evs) \<Rightarrow> (r, PartialLookup (entity x) # evs)))"
  by (simp add: entity_match_def split: sum.split option.split)

declare partial_scan.simps(2) [simp del]

lemma partial_scan_agree:
  assumes "\<forall>x\<in>set es. \<exists>m. entity_match w pb n (entity x) = Inr m \<and> m \<noteq> Some []"
      and "set (full_matches w pb n es) \<subseteq> {c}"
      and "cand = None \<or> cand = Some c"
  shows "partial_scan w pb n cand es
           = (Inr (if full_matches w pb n es = [] then cand else Some c),
              map (\<lambda>x. PartialLookup (entity x)) es)"
  using assms
proof (induction es arbitrary: cand)
  case Nil
  then show ?case by simp
next
  case (Cons x xs)
  from Cons.prems(1) obtain m where m: "entity_match w pb n (entity x) = Inr m" "m \<noteq> Some []"
    by auto
  have rest: "\<forall>x\<in>set xs. \<exists>m. entity_match w pb n (entity x) = Inr m \<and> m \<noteq> Some []"
    using Cons.prems(1) by simp
  have sub: "set (full_matches w pb n xs) \<subseteq> {c}"
    using Cons.prems(2) by (auto simp: full_matches_Cons)
  show ?case
  proof (cases m)
    case None
    with m Cons.IH [OF rest sub Cons.prems(3)] show ?thesis
      by (simp add: partial_scan_step full_matches_Cons)
  next
    case (Some s)
    with m Cons.prems(2) have sc: "s = c" by (simp add: full_matches_Cons)
    have "partial_scan w pb n (Some c) xs
           = (Inr (if full_matches w pb n xs = [] then Some c else Some c),
              map (\<lambda>x. PartialLookup (entity x)) xs)"
      by (rule Cons.IH [OF rest sub]) simp
    with m Some sc Cons.prems(3) show ?thesis
      by (auto simp: partial_scan_step full_matches_Cons)
  qed
qed

lemma partial_scan_differs:
  assumes "\<forall>x\<in>set es. \<exists>m. entity_match w pb n (entity x) = Inr m \<and> m \<noteq> Some []"
      and "c \<noteq> []" and "t \<in> set (full_matches w pb n es)" and "t \<noteq> c"
  shows "fst (partial_scan w pb n (Some c) es) = Inl (AmbiguousObjectName pb)"
  using assms
proof (induction es)
  case Nil
  then show ?case by simp
next
  case (Cons x xs)
  from Cons.prems(1) obtain m where m: "entity_match w pb n (entity x) = Inr m" "m \<noteq> Some []"
    by auto
  have rest: "\<forall>x\<in>set xs. \<exists>m. entity_match w pb n (entity x) = Inr m \<and> m \<noteq> Some []"
    using Cons.prems(1) by simp
  show ?case
  proof (cases m)
    case None
    with m Cons.prems have "t \<in> set (full_matches w pb n xs)" by (simp add: full_matches_Cons)
    from Cons.IH [OF rest Cons.prems(2) this Cons.prems(4)] m None show ?thesis
      by (auto simp: partial_scan_step split: prod.split)
  next
    case (Some s)
    show ?thesis
    proof (cases "s = c")
      case True
      with m Some Cons.prems have "t \<in> set (full_matches w pb n xs)"
        by (auto simp: full_matches_Cons)
      from Cons.IH [OF rest Cons.prems(2) this Cons.prems(4)] m Some True show ?thesis
        by (auto simp: partial_scan_step split: prod.split)
    next
      case False
      with m Some Cons.prems(2) show ?thesis
        by (simp add: partial_scan_step)
    qed
  qed
qed

lemma partial_scan_two:
  assumes "\<forall>x\<in>set es. \<exists>m. entity_match w pb n (entity x) = Inr m \<and> m \<noteq> Some []"
      and "s \<in> set (full_matches w pb n es)" and "t \<in> set (full_matches w pb n es)" and "s \<noteq> t"
  shows "fst (partial_scan w pb n None es) = Inl (AmbiguousObjectName pb)"
  using assms
proof (induction es)
  case Nil
  then show ?case by simp
next
  case (Cons x xs)
  from Cons.prems(1) obtain m where m: "entity_match w pb n (entity x) = Inr m" "m \<noteq> Some []"
    by auto
  have rest: "\<forall>x\<in>set xs. \<exists>m. entity_match w pb n (entity x) = Inr m \<and> m \<noteq> Some []"
    using Cons.prems(1) by simp
  show ?case
  proof (cases m)
    case None
    with m Cons.prems have "s \<in> set (full_matches w pb n xs)" "t \<in> set (full_matches w pb n xs)"
      by (simp_all add: full_matches_Cons)
    from Cons.IH [OF rest this Cons.prems(4)] m None show ?thesis
      by (auto simp: partial_scan_step split: prod.split)
  next
    case (Some u)
    with m have u: "u \<noteq> []" by simp
    from Cons.prems(2,3,4) m Some
    obtain v where v: "v \<in> set (full_matches w pb n xs)" "v \<noteq> u"
      by (auto simp: full_matches_Cons)
    from partial_scan_differs [OF rest u v] m Some show ?thesis
      by (auto simp: partial_scan_step split: prod.split)
  qed
qed

lemma partial_to_complete_no_match:
  assumes "get_entities w self = (Inr es, self1, evs0)"
      and "\<forall>x\<in>set es. \<exists>m. entity_match w pb n (entity x) = Inr m \<and> m \<noteq> Some []"
      and "set (full_matches w pb n es) = {}"
  shows "partial_to_complete_sha w pb n self
                  = (Inl (BadObject pb), self1, evs0 @ map (\<lambda>x. PartialLookup (entity x)) es)"
proof -
  from assms(3) have e: "full_matches w pb n es = []" by simp
  then have sub: "set (full_matches w pb n es) \<subseteq> {[]}" by simp
  have t: "(None :: sha option) = None \<or> None = Some []" by simp
  from partial_scan_agree [OF assms(2) sub t] e
  have "partial_scan w pb n None es = (Inr None, map (\<lambda>x. PartialLookup (entity x)) es)"
    by simp
  then show ?thesis
    by (simp add: partial_to_complete_sha_read [OF assms(1)])
qed

lemma in_full_matches:
  "s \<in> set (full_matches w pb n es)
     \<longleftrightarrow> (\<exists>x\<in>set es. entity_match w pb n (entity x) = Inr (Some s))"
proof (induction es)
  case Nil
  show ?case by simp
next
  case (Cons x xs)
  show ?case
  proof (cases "entity_match w pb n (entity x)")
    case (Inl e)
    with Cons show ?thesis by (simp add: full_matches_Cons)
  next
    case (Inr m)
    with Cons show ?thesis by (cases m) (auto simp: full_matches_Cons)
  qed
qed

lemma partial_to_complete_one_match:
  assumes "get_entities w self = (Inr es, self1, evs0)"
      and "\<forall>x\<in>set es. \<exists>m. entity_match w pb n (entity x) = Inr m \<and> m \<noteq> Some []"
      and one: "set (full_matches w pb n es) = {s}"
  shows "partial_to_complete_sha w pb n self
                  = (Inr s, self1, evs0 @ map (\<lambda>x. PartialLookup (entity x)) es)"
proof -
  from one have mem: "s \<in> set (full_matches w pb n es)" by simp
  then have ne: "full_matches w pb n es \<noteq> []" by (cases "full_matches w pb n es") simp_all
  from one have sub: "set (full_matches w pb n es) \<subseteq> {s}" by simp
  have t: "(None :: sha option) = None \<or> None = Some s" by simp
  from partial_scan_agree [OF assms(2) sub t] ne
  have sc: "partial_scan w pb n None es = (Inr (Some s), map (\<lambda>x. PartialLookup (entity x)) es)"
    by simp
  from mem obtain x where x: "x \<in> set es" "entity_match w pb n (entity x) = Inr (Some s)"
    unfolding in_full_matches by blast
  from assms(2) x(1) obtain m where "entity_match w pb n (entity x) = Inr m" "m \<noteq> Some []"
    by blast
  with x(2) have "s \<noteq> []" by simp
  with sc show ?thesis
    by (simp add: partial_to_complete_sha_read [OF assms(1)])
qed

lemma partial_to_complete_two_matches:
  assumes "get_entities w self = (Inr es, self1, evs0)"
      and "\<forall>x\<in>set es. \<exists>m. entity_match w pb n (entity x) = Inr m \<and> m \<noteq> Some []"
      and "s1 \<in> set (full_matches w pb n es)" "s2 \<in> set (full_matches w pb n es)" "s1 \<noteq> s2"
  shows "fst (partial_to_complete_sha w pb n self) = Inl (AmbiguousObjectName pb)"
proof -
  have "fst (partial_scan w pb n None es) = Inl (AmbiguousObjectName pb)"
    by (rule partial_scan_two [OF assms(2) assms(3) assms(4) assms(5)])
  then obtain evs where "partial_scan w pb n None es = (Inl (AmbiguousObjectName pb), evs)"
    by (cases "partial_scan w pb n None es") simp
  then show ?thesis
    by (simp add: partial_to_complete_sha_read [OF assms(1)])
qed

text \<open>
  C3. \<open>partial_to_complete_sha\<close> on a store whose entities all answer the two index
  queries, with non-empty digests. Let the matches be the full digests the entities
  complete the partial digest to. With no match the call raises \<open>BadObject\<close>; with
  exactly one full digest among the matches (found in one entity or in several) it
  returns that digest; in both cases every entity of the registry has been queried, in
  order, so the scan did not stop at the first hit. With two different full digests
  among the matches it raises \<open>AmbiguousObjectName\<close>.
  Here \<open>es\<close> is the registry as the call reads it: the list already there, or the list
  that the first read loads from the directory, whose calls \<open>evs0\<close> then come first.
\<close>

theorem partial_to_complete_sha_outcomes:
  assumes "get_entities w self = (Inr es, self1, evs0)"
      and "\<forall>x\<in>set es. \<exists>m. entity_match w pb n (entity x) = Inr m \<and> m \<noteq> Some []"
  shows "(set (full_matches w pb n es) = {}
            \<longrightarrow> partial_to_complete_sha w pb n self
                  = (Inl (BadObject pb), self1, evs0 @ map (\<lambda>x. PartialLookup (entity x)) es))
       \<and> (set (full_matches w pb n es) = {s}
            \<longrightarrow> partial_to_complete_sha w pb n self
                  = (Inr s, self1, evs0 @ map (\<lambda>x. PartialLookup (entity x)) es))
       \<and> (s1 \<in> set (full_matches w pb n es) \<and> s2 \<in> set (full_matches w pb n es) \<and> s1 \<noteq> s2
            \<longrightarrow> fst (partial_to_complete_sha w pb n self) = Inl (AmbiguousObjectName pb))"
  using partial_to_complete_no_match [OF assms] partial_to_complete_one_match [OF assms]
    partial_to_complete_two_matches [OF assms]
  by blast

lemma hex_digits_Cons: "hex_digits (b # bs) = unat b div 16 # unat b mod 16 # hex_digits bs"
  by (simp add: hex_digits_def)

lemma hex_digits_Nil: "hex_digits [] = []"
  by (simp add: hex_digits_def)

lemma prefix_5:
  "prefix_matches [0xAA, 0xAA, 0x10] 5 sha_1" "\<not> prefix_matches [0xAA, 0xAA, 0x10] 5 sha_2"
  by (simp_all add: prefix_matches_def hex_digits_Cons hex_digits_Nil sha_1_def sha_2_def)

lemma prefix_4:
  "prefix_matches [0xAA, 0xAA] 4 sha_1" "prefix_matches [0xAA, 0xAA] 4 sha_2"
  by (simp_all add: prefix_matches_def hex_digits_Cons hex_digits_Nil sha_1_def sha_2_def)

lemma prefix_2:
  "\<not> prefix_matches [0xBB] 2 sha_1" "\<not> prefix_matches [0xBB] 2 sha_2"
  by (simp_all add: prefix_matches_def hex_digits_Cons hex_digits_Nil sha_1_def sha_2_def)

lemma sample_entity_match:
  "entity_match sample_world [0xAA, 0xAA, 0x10] 5 PackA = Inr (Some sha_1)"
  "entity_match sample_world [0xAA, 0xAA, 0x10] 5 PackB = Inr None"
  "entity_match sample_world [0xAA, 0xAA] 4 PackA = Inr (Some sha_1)"
  "entity_match sample_world [0xAA, 0xAA] 4 PackB = Inr (Some sha_2)"
  "entity_match sample_world [0xBB] 2 PackA = Inr None"
  "entity_match sample_world [0xBB] 2 PackB = Inr None"
  by (simp_all add: entity_match_def sample_index_sha_def prefix_5 prefix_4 prefix_2)

lemma sha_nonempty: "sha_1 \<noteq> []" "sha_2 \<noteq> []"
  by (simp_all add: sha_1_def sha_2_def)

theorem partial_to_complete_sha_outcomes_witness:
  "partial_to_complete_sha sample_world [0xAA, 0xAA, 0x10] 5 (sample_db 1 1 0)
     = (Inr sha_1, sample_db 1 1 0, [PartialLookup PackA, PartialLookup PackB])
   \<and> fst (partial_to_complete_sha sample_world [0xAA, 0xAA] 4 (sample_db 1 1 0))
     = Inl (AmbiguousObjectName [0xAA, 0xAA])
   \<and> partial_to_complete_sha sample_world [0xBB] 2 (sample_db 1 1 0)
     = (Inl (BadObject [0xBB]), sample_db 1 1 0, [PartialLookup PackA, PartialLookup PackB])"
proof -
  let ?es = "[\<lparr>hits = 1, entity = PackA\<rparr>, \<lparr>hits = 1, entity = PackB\<rparr>]"
  have e: "get_entities sample_world (sample_db 1 1 0) = (Inr ?es, sample_db 1 1 0, [])"
    by (simp add: get_entities_def sample_db_def)
  have ok5: "\<forall>x\<in>set ?es. \<exists>m. entity_match sample_world [0xAA, 0xAA, 0x10] 5 (entity x) = Inr m
                \<and> m \<noteq> Some []"
    by (simp add: sample_entity_match sha_nonempty)
  have ok4: "\<forall>x\<in>set ?es. \<exists>m. entity_match sample_world [0xAA, 0xAA] 4 (entity x) = Inr m
                \<and> m \<noteq> Some []"
    by (simp add: sample_entity_match sha_nonempty)
  have ok2: "\<forall>x\<in>set ?es. \<exists>m. entity_match sample_world [0xBB] 2 (entity x) = Inr m
                \<and> m \<noteq> Some []"
    by (simp add: sample_entity_match sha_nonempty)
  have 1: "partial_to_complete_sha sample_world [0xAA, 0xAA, 0x10] 5 (sample_db 1 1 0)
     = (Inr sha_1, sample_db 1 1 0, [PartialLookup PackA, PartialLookup PackB])"
    using partial_to_complete_sha_outcomes [OF e ok5, of sha_1 sha_1 sha_1]
    by (simp add: full_matches_def sample_entity_match)
  have 2: "fst (partial_to_complete_sha sample_world [0xAA, 0xAA] 4 (sample_db 1 1 0))
     = Inl (AmbiguousObjectName [0xAA, 0xAA])"
    using partial_to_complete_sha_outcomes [OF e ok4, of sha_1 sha_1 sha_2]
    by (simp add: full_matches_def sample_entity_match)
  have 3: "partial_to_complete_sha sample_world [0xBB] 2 (sample_db 1 1 0)
     = (Inl (BadObject [0xBB]), sample_db 1 1 0, [PartialLookup PackA, PartialLookup PackB])"
    using partial_to_complete_sha_outcomes [OF e ok2, of sha_1 sha_1 sha_1]
    by (simp add: full_matches_def sample_entity_match)
  from 1 2 3 show ?thesis by simp
qed

end
